theory Spec2Isabelle
  imports Main "HOL-Library.Word"
begin

section \<open>The sharded map of \<^verbatim>\<open>ylt/util/map_sharded.hpp\<close>\<close>

text \<open>
  The header defines two class templates: \<^verbatim>\<open>internal::map_lock_t<Map>\<close>, one shard (a
  lazily allocated \<^verbatim>\<open>Map\<close> behind a mutex), and \<^verbatim>\<open>map_sharded_t<Map, Hash>\<close>, a vector of
  shards with an atomic element counter.  The model is sequential: every member function
  is one critical section, so the mutex is left out and a member function is a function
  from the object's state to its result and the new state.

  Machine integers keep their width: \<^verbatim>\<open>size_t\<close> is a 64-bit word, and the \<^verbatim>\<open>int\<close> that
  \<^verbatim>\<open>auto total = 0\<close> declares is a 32-bit word read in two's complement.
\<close>

type_synonym size_t = "64 word"
type_synonym cint = "32 word"

text \<open>
  The two places where the header's behaviour is undefined in C++ are results of their
  own: the remainder by an empty shard vector in \<^verbatim>\<open>get_sharded\<close>, and the dereference
  of the end iterator in \<^verbatim>\<open>map_lock_t::find\<close>.
\<close>

datatype fault = Division_By_Zero | End_Iterator_Dereference

subsection \<open>The template parameters\<close>

text \<open>
  A value handle is a shared pointer: \<open>None\<close> is \<^verbatim>\<open>nullptr\<close>, \<open>Some p\<close> points to the
  element \<open>p\<close>.  \<^verbatim>\<open>Map\<close> is a map with unique keys (\<^verbatim>\<open>std::unordered_map\<close>, \<^verbatim>\<open>std::map\<close>);
  it is a list of entries in iteration order, a new entry going to the end.  The four
  functions below are the members of \<^verbatim>\<open>Map\<close> and the \<^verbatim>\<open>std::erase_if\<close> that the header
  calls.  \<open>map_find\<close> returns the entry the iterator points to, \<open>None\<close> for \<^verbatim>\<open>end()\<close>.
\<close>

type_synonym 'p handle = "'p option"
type_synonym ('k, 'p) entry = "'k \<times> 'p handle"

definition map_find :: "'k \<Rightarrow> ('k, 'p) entry list \<Rightarrow> ('k, 'p) entry option" where
  "map_find key mp = List.find (\<lambda>e. fst e = key) mp"

definition map_try_emplace ::
  "'k \<Rightarrow> 'p handle \<Rightarrow> ('k, 'p) entry list \<Rightarrow> (('k, 'p) entry \<times> bool) \<times> ('k, 'p) entry list" where
  "map_try_emplace key args mp =
     (case map_find key mp of
        Some e \<Rightarrow> ((e, False), mp)
      | None \<Rightarrow> (((key, args), True), mp @ [(key, args)]))"

definition map_erase :: "'k \<Rightarrow> ('k, 'p) entry list \<Rightarrow> size_t \<times> ('k, 'p) entry list" where
  "map_erase key mp =
     (word_of_nat (length (filter (\<lambda>e. fst e = key) mp)), filter (\<lambda>e. fst e \<noteq> key) mp)"

definition std_erase_if ::
  "(('k, 'p) entry \<Rightarrow> bool) \<Rightarrow> ('k, 'p) entry list \<Rightarrow> size_t \<times> ('k, 'p) entry list" where
  "std_erase_if pred mp =
     (word_of_nat (length (filter pred mp)), filter (\<lambda>e. \<not> pred e) mp)"

subsection \<open>\<^verbatim>\<open>internal::map_lock_t\<close>: one shard\<close>

text \<open>
  An Isabelle name cannot end in an underscore, so the members \<^verbatim>\<open>map_\<close>, \<^verbatim>\<open>shards_\<close> and
  \<^verbatim>\<open>size_\<close> are the fields \<open>map_ptr\<close>, \<open>shards\<close> and \<open>size_atomic\<close>.  \<open>map_ptr\<close> is the
  \<^verbatim>\<open>std::unique_ptr<Map>\<close>: \<open>None\<close> until the first write allocates it.
\<close>

record ('k, 'p) map_lock_t =
  map_ptr :: "('k, 'p) entry list option"

definition map_lock_t_init :: "('k, 'p) map_lock_t" where
  "map_lock_t_init = \<lparr>map_ptr = None\<rparr>"

text \<open>
  \<^verbatim>\<open>find\<close> (lines 21-29) returns \<^verbatim>\<open>it->second\<close> with no comparison of \<^verbatim>\<open>it\<close> against
  \<^verbatim>\<open>end()\<close>.
\<close>

definition map_lock_find :: "'k \<Rightarrow> ('k, 'p) map_lock_t \<Rightarrow> fault + 'p handle" where
  "map_lock_find key sh =
     (case map_ptr sh of
        None \<Rightarrow> Inr None
      | Some mp \<Rightarrow>
          (case map_find key mp of
             None \<Rightarrow> Inl End_Iterator_Dereference
           | Some e \<Rightarrow> Inr (snd e)))"

text \<open>\<^verbatim>\<open>visit_map\<close> (lines 105-110) returns the storage and the shard that now owns it.\<close>

definition visit_map ::
  "('k, 'p) map_lock_t \<Rightarrow> ('k, 'p) entry list \<times> ('k, 'p) map_lock_t" where
  "visit_map sh =
     (case map_ptr sh of
        None \<Rightarrow> ([], sh\<lparr>map_ptr := Some []\<rparr>)
      | Some mp \<Rightarrow> (mp, sh))"

text \<open>
  \<^verbatim>\<open>try_emplace\<close> (lines 31-45; the overload that takes \<^verbatim>\<open>key_type&&\<close> differs in moving
  the key only) and \<^verbatim>\<open>erase\<close> (lines 47-53).  \<open>args\<close> is the handle that
  \<^verbatim>\<open>Map::try_emplace\<close> constructs from the arguments when it inserts.
\<close>

definition map_lock_try_emplace ::
  "'k \<Rightarrow> 'p handle \<Rightarrow> ('k, 'p) map_lock_t \<Rightarrow> (('k, 'p) entry \<times> bool) \<times> ('k, 'p) map_lock_t" where
  "map_lock_try_emplace key args sh =
     (case visit_map sh of
        (mp, sh') \<Rightarrow>
          (case map_try_emplace key args mp of
             (result, mp') \<Rightarrow> (result, sh'\<lparr>map_ptr := Some mp'\<rparr>)))"

definition map_lock_erase :: "'k \<Rightarrow> ('k, 'p) map_lock_t \<Rightarrow> size_t \<times> ('k, 'p) map_lock_t" where
  "map_lock_erase key sh =
     (case map_ptr sh of
        None \<Rightarrow> (0, sh)
      | Some mp \<Rightarrow> (case map_erase key mp of (n, mp') \<Rightarrow> (n, sh\<lparr>map_ptr := Some mp'\<rparr>)))"

text \<open>
  \<^verbatim>\<open>erase_if\<close> (lines 55-62) takes its predicate as a forwarding reference \<^verbatim>\<open>Func&& op\<close>
  and passes \<^verbatim>\<open>std::forward<Func>(op)\<close> to \<^verbatim>\<open>std::erase_if\<close>, whose parameter is a value.
  The parameter is copied from \<^verbatim>\<open>op\<close> when the caller passed an lvalue, and move-constructed
  from it when the caller passed an rvalue, which leaves \<^verbatim>\<open>op\<close> in its moved-from state.
  So a predicate is a closure object: the values it captures, its call operator, the
  captures that its move constructor leaves in the object moved from, and whether the
  caller passed it as an rvalue.  The result of a call depends on the captures and the
  entry only.  \<open>forward_by_value\<close> returns the predicate that the parameter of
  \<^verbatim>\<open>std::erase_if\<close> computes and the closure that is left in \<^verbatim>\<open>op\<close>; the shard's \<^verbatim>\<open>erase_if\<close>
  returns what is left in \<^verbatim>\<open>op\<close> with its count.  A shard without storage returns before
  it forwards.
\<close>

record ('c, 'k, 'p) closure =
  captures :: 'c
  call :: "'c \<Rightarrow> ('k, 'p) entry \<Rightarrow> bool"
  moved_from :: "'c \<Rightarrow> 'c"
  rvalue :: bool

definition predicate_of :: "('c, 'k, 'p) closure \<Rightarrow> ('k, 'p) entry \<Rightarrow> bool" where
  "predicate_of op = call op (captures op)"

definition forward_by_value ::
  "('c, 'k, 'p) closure \<Rightarrow> (('k, 'p) entry \<Rightarrow> bool) \<times> ('c, 'k, 'p) closure" where
  "forward_by_value op =
     (predicate_of op,
      if rvalue op then op\<lparr>captures := moved_from op (captures op)\<rparr> else op)"

definition map_lock_erase_if ::
  "('c, 'k, 'p) closure \<Rightarrow> ('k, 'p) map_lock_t
     \<Rightarrow> size_t \<times> ('k, 'p) map_lock_t \<times> ('c, 'k, 'p) closure" where
  "map_lock_erase_if op sh =
     (case map_ptr sh of
        None \<Rightarrow> (0, sh, op)
      | Some mp \<Rightarrow>
          (case forward_by_value op of
             (pred, op') \<Rightarrow>
               (case std_erase_if pred mp of
                  (n, mp') \<Rightarrow> (n, sh\<lparr>map_ptr := Some mp'\<rparr>, op'))))"

text \<open>
  \<^verbatim>\<open>for_each\<close> (lines 64-82).  A visitor is called on one entry with its own state \<open>'s\<close>
  (what the closure captures); through \<^verbatim>\<open>auto& e\<close> it may assign \<^verbatim>\<open>e.second\<close>, so it
  returns the handle the entry holds afterwards.  A visitor whose result compares with
  \<^verbatim>\<open>true\<close> also returns that result.  In the loop the \<^verbatim>\<open>break\<close> comes before the
  \<^verbatim>\<open>return false\<close>: control leaves the loop and reaches the \<^verbatim>\<open>return true\<close> after it.
\<close>

type_synonym ('k, 'p, 's) bool_visitor = "('k, 'p) entry \<Rightarrow> 's \<Rightarrow> bool \<times> 'p handle \<times> 's"
type_synonym ('k, 'p, 's) void_visitor = "('k, 'p) entry \<Rightarrow> 's \<Rightarrow> 'p handle \<times> 's"

fun for_each_entries ::
  "('k, 'p, 's) bool_visitor \<Rightarrow> ('k, 'p) entry list \<Rightarrow> 's \<Rightarrow> ('k, 'p) entry list \<times> 's" where
  "for_each_entries op [] s = ([], s)"
| "for_each_entries op (e # es) s =
     (case op e s of
        (go_on, v, s') \<Rightarrow>
          if \<not> go_on then ((fst e, v) # es, s')
          else (case for_each_entries op es s' of (es', s'') \<Rightarrow> ((fst e, v) # es', s'')))"

definition map_lock_for_each ::
  "('k, 'p, 's) bool_visitor \<Rightarrow> ('k, 'p) map_lock_t \<Rightarrow> 's \<Rightarrow> bool \<times> ('k, 'p) map_lock_t \<times> 's" where
  "map_lock_for_each op sh s =
     (case map_ptr sh of
        None \<Rightarrow> (True, sh, s)
      | Some mp \<Rightarrow>
          (case for_each_entries op mp s of (mp', s') \<Rightarrow> (True, sh\<lparr>map_ptr := Some mp'\<rparr>, s')))"

fun for_each_entries_void ::
  "('k, 'p, 's) void_visitor \<Rightarrow> ('k, 'p) entry list \<Rightarrow> 's \<Rightarrow> ('k, 'p) entry list \<times> 's" where
  "for_each_entries_void op [] s = ([], s)"
| "for_each_entries_void op (e # es) s =
     (case op e s of
        (v, s') \<Rightarrow>
          (case for_each_entries_void op es s' of (es', s'') \<Rightarrow> ((fst e, v) # es', s'')))"

definition map_lock_for_each_void ::
  "('k, 'p, 's) void_visitor \<Rightarrow> ('k, 'p) map_lock_t \<Rightarrow> 's \<Rightarrow> bool \<times> ('k, 'p) map_lock_t \<times> 's" where
  "map_lock_for_each_void op sh s =
     (case map_ptr sh of
        None \<Rightarrow> (True, sh, s)
      | Some mp \<Rightarrow>
          (case for_each_entries_void op mp s of
             (mp', s') \<Rightarrow> (True, sh\<lparr>map_ptr := Some mp'\<rparr>, s')))"

text \<open>
  The \<^verbatim>\<open>const\<close> overload (lines 84-102) with a visitor that returns nothing, as \<^verbatim>\<open>copy\<close>
  calls it: the entries are \<^verbatim>\<open>const\<close>, only the visitor's state changes.
\<close>

definition map_lock_for_each_const ::
  "(('k, 'p) entry \<Rightarrow> 's \<Rightarrow> 's) \<Rightarrow> ('k, 'p) map_lock_t \<Rightarrow> 's \<Rightarrow> bool \<times> 's" where
  "map_lock_for_each_const op sh s =
     (case map_ptr sh of
        None \<Rightarrow> (True, s)
      | Some mp \<Rightarrow> (True, fold op mp s))"

subsection \<open>\<^verbatim>\<open>map_sharded_t\<close>: the vector of shards and the counter\<close>

record ('k, 'p) map_sharded_t =
  shards :: "('k, 'p) map_lock_t list"
  size_atomic :: size_t

text \<open>
  The constructor (line 122) builds \<^verbatim>\<open>shard_num\<close> empty shards.  \<^verbatim>\<open>size_\<close> has no
  initialiser; the default constructor of \<^verbatim>\<open>std::atomic\<close> value-initialises it in C++20,
  the language version the header needs.
\<close>

definition map_sharded_t_init :: "nat \<Rightarrow> ('k, 'p) map_sharded_t" where
  "map_sharded_t_init shard_num = \<lparr>shards = replicate shard_num map_lock_t_init, size_atomic = 0\<rparr>"

text \<open>
  \<^verbatim>\<open>get_sharded\<close> (lines 212-217) returns the index of the shard it selects.  The hash
  functor \<^verbatim>\<open>Hash{}\<close> is the function \<open>H\<close> that the operations below take first.
\<close>

definition get_sharded :: "size_t \<Rightarrow> ('k, 'p) map_sharded_t \<Rightarrow> fault + nat" where
  "get_sharded hash m =
     (if length (shards m) = 0 then Inl Division_By_Zero
      else Inr (unat hash mod length (shards m)))"

text \<open>
  \<^verbatim>\<open>try_emplace\<close> (lines 124-142), \<^verbatim>\<open>size\<close> (line 144), \<^verbatim>\<open>find\<close> (lines 146-148) and
  \<^verbatim>\<open>erase\<close> (lines 150-156).  \<^verbatim>\<open>fetch_add\<close> and \<^verbatim>\<open>fetch_sub\<close> on the \<^verbatim>\<open>size_t\<close> counter
  wrap around, as \<open>+\<close> and \<open>-\<close> on a word do.
\<close>

definition map_sharded_try_emplace ::
  "('k \<Rightarrow> size_t) \<Rightarrow> 'k \<Rightarrow> 'p handle \<Rightarrow> ('k, 'p) map_sharded_t
     \<Rightarrow> fault + ((('k, 'p) entry \<times> bool) \<times> ('k, 'p) map_sharded_t)" where
  "map_sharded_try_emplace H key args m =
     (case get_sharded (H key) m of
        Inl f \<Rightarrow> Inl f
      | Inr i \<Rightarrow>
          (case map_lock_try_emplace key args (shards m ! i) of
             (result, sh') \<Rightarrow>
               Inr (result,
                    m\<lparr>shards := (shards m)[i := sh'],
                      size_atomic := (if snd result then size_atomic m + 1 else size_atomic m)\<rparr>)))"

definition map_sharded_size :: "('k, 'p) map_sharded_t \<Rightarrow> size_t" where
  "map_sharded_size m = size_atomic m"

definition map_sharded_find ::
  "('k \<Rightarrow> size_t) \<Rightarrow> 'k \<Rightarrow> ('k, 'p) map_sharded_t \<Rightarrow> fault + 'p handle" where
  "map_sharded_find H key m =
     (case get_sharded (H key) m of
        Inl f \<Rightarrow> Inl f
      | Inr i \<Rightarrow> map_lock_find key (shards m ! i))"

definition map_sharded_erase ::
  "('k \<Rightarrow> size_t) \<Rightarrow> 'k \<Rightarrow> ('k, 'p) map_sharded_t \<Rightarrow> fault + (size_t \<times> ('k, 'p) map_sharded_t)" where
  "map_sharded_erase H key m =
     (case get_sharded (H key) m of
        Inl f \<Rightarrow> Inl f
      | Inr i \<Rightarrow>
          (case map_lock_erase key (shards m ! i) of
             (result, sh') \<Rightarrow>
               Inr (result,
                    m\<lparr>shards := (shards m)[i := sh'],
                      size_atomic := (if result \<noteq> 0 then size_atomic m - result else size_atomic m)\<rparr>)))"

text \<open>
  \<^verbatim>\<open>erase_if\<close> (lines 158-167) and \<^verbatim>\<open>erase_one\<close> (lines 169-181).  Both declare
  \<^verbatim>\<open>auto total = 0\<close>, an \<^verbatim>\<open>int\<close>, and return it as \<^verbatim>\<open>size_t\<close>.  \<^verbatim>\<open>total += result\<close> adds in
  \<^verbatim>\<open>size_t\<close> (the \<^verbatim>\<open>int\<close> is sign-extended) and stores the low 32 bits; \<^verbatim>\<open>return total\<close>
  sign-extends the \<^verbatim>\<open>int\<close> to \<^verbatim>\<open>size_t\<close>.  The loops over \<^verbatim>\<open>shards_\<close> are recursions over the
  list of shards, with \<^verbatim>\<open>total\<close> and the counter as accumulators.  Both loops pass
  \<^verbatim>\<open>std::forward<Func>(op)\<close> to every shard (lines 162 and 173), so each shard gets the
  closure as the shard before it left it.
\<close>

definition add_assign :: "cint \<Rightarrow> size_t \<Rightarrow> cint" where
  "add_assign tot result = ucast ((scast tot :: size_t) + result)"

definition return_total :: "cint \<Rightarrow> size_t" where
  "return_total tot = scast tot"

fun erase_if_shards ::
  "('c, 'k, 'p) closure \<Rightarrow> ('k, 'p) map_lock_t list \<Rightarrow> cint \<Rightarrow> size_t
     \<Rightarrow> ('k, 'p) map_lock_t list \<times> cint \<times> size_t" where
  "erase_if_shards op [] tot sz = ([], tot, sz)"
| "erase_if_shards op (sh # shs) tot sz =
     (case map_lock_erase_if op sh of
        (result, sh', op') \<Rightarrow>
          (case erase_if_shards op' shs (add_assign tot result) (sz - result) of
             (shs', tot', sz') \<Rightarrow> (sh' # shs', tot', sz')))"

definition map_sharded_erase_if ::
  "('c, 'k, 'p) closure \<Rightarrow> ('k, 'p) map_sharded_t \<Rightarrow> size_t \<times> ('k, 'p) map_sharded_t" where
  "map_sharded_erase_if op m =
     (case erase_if_shards op (shards m) 0 (size_atomic m) of
        (shs', tot, sz') \<Rightarrow> (return_total tot, m\<lparr>shards := shs', size_atomic := sz'\<rparr>))"

fun erase_one_shards ::
  "('c, 'k, 'p) closure \<Rightarrow> ('k, 'p) map_lock_t list \<Rightarrow> cint \<Rightarrow> size_t
     \<Rightarrow> ('k, 'p) map_lock_t list \<times> cint \<times> size_t" where
  "erase_one_shards op [] tot sz = ([], tot, sz)"
| "erase_one_shards op (sh # shs) tot sz =
     (case map_lock_erase_if op sh of
        (result, sh', op') \<Rightarrow>
          if result \<noteq> 0 then (sh' # shs, add_assign tot result, sz - result)
          else (case erase_one_shards op' shs tot sz of
                  (shs', tot', sz') \<Rightarrow> (sh' # shs', tot', sz')))"

definition map_sharded_erase_one ::
  "('c, 'k, 'p) closure \<Rightarrow> ('k, 'p) map_sharded_t \<Rightarrow> size_t \<times> ('k, 'p) map_sharded_t" where
  "map_sharded_erase_one op m =
     (case erase_one_shards op (shards m) 0 (size_atomic m) of
        (shs', tot, sz') \<Rightarrow> (return_total tot, m\<lparr>shards := shs', size_atomic := sz'\<rparr>))"

text \<open>
  \<^verbatim>\<open>for_each\<close> (lines 183-189), for a visitor that returns \<^verbatim>\<open>bool\<close> and for one that returns
  nothing.
\<close>

fun for_each_shards ::
  "('k, 'p, 's) bool_visitor \<Rightarrow> ('k, 'p) map_lock_t list \<Rightarrow> 's \<Rightarrow> ('k, 'p) map_lock_t list \<times> 's" where
  "for_each_shards op [] s = ([], s)"
| "for_each_shards op (sh # shs) s =
     (case map_lock_for_each op sh s of
        (completed, sh', s') \<Rightarrow>
          if \<not> completed then (sh' # shs, s')
          else (case for_each_shards op shs s' of (shs', s'') \<Rightarrow> (sh' # shs', s'')))"

definition map_sharded_for_each ::
  "('k, 'p, 's) bool_visitor \<Rightarrow> ('k, 'p) map_sharded_t \<Rightarrow> 's \<Rightarrow> ('k, 'p) map_sharded_t \<times> 's" where
  "map_sharded_for_each op m s =
     (case for_each_shards op (shards m) s of (shs', s') \<Rightarrow> (m\<lparr>shards := shs'\<rparr>, s'))"

fun for_each_shards_void ::
  "('k, 'p, 's) void_visitor \<Rightarrow> ('k, 'p) map_lock_t list \<Rightarrow> 's \<Rightarrow> ('k, 'p) map_lock_t list \<times> 's" where
  "for_each_shards_void op [] s = ([], s)"
| "for_each_shards_void op (sh # shs) s =
     (case map_lock_for_each_void op sh s of
        (completed, sh', s') \<Rightarrow>
          if \<not> completed then (sh' # shs, s')
          else (case for_each_shards_void op shs s' of (shs', s'') \<Rightarrow> (sh' # shs', s'')))"

definition map_sharded_for_each_void ::
  "('k, 'p, 's) void_visitor \<Rightarrow> ('k, 'p) map_sharded_t \<Rightarrow> 's \<Rightarrow> ('k, 'p) map_sharded_t \<times> 's" where
  "map_sharded_for_each_void op m s =
     (case for_each_shards_void op (shards m) s of (shs', s') \<Rightarrow> (m\<lparr>shards := shs'\<rparr>, s'))"

text \<open>
  \<^verbatim>\<open>copy\<close> (lines 191-203): the closure pushes \<^verbatim>\<open>e.second\<close> onto \<^verbatim>\<open>ret\<close> when \<^verbatim>\<open>op\<close> accepts
  it; the result of the shard's \<^verbatim>\<open>for_each\<close> is dropped.  \<^verbatim>\<open>reserve\<close> sets the capacity of
  \<^verbatim>\<open>ret\<close>, not its contents.
\<close>

definition copy_visitor :: "('p handle \<Rightarrow> bool) \<Rightarrow> ('k, 'p) entry \<Rightarrow> 'p handle list \<Rightarrow> 'p handle list" where
  "copy_visitor op e ret = (if op (snd e) then ret @ [snd e] else ret)"

fun copy_shards ::
  "('p handle \<Rightarrow> bool) \<Rightarrow> ('k, 'p) map_lock_t list \<Rightarrow> 'p handle list \<Rightarrow> 'p handle list" where
  "copy_shards op [] ret = ret"
| "copy_shards op (sh # shs) ret =
     (case map_lock_for_each_const (copy_visitor op) sh ret of
        (completed, ret') \<Rightarrow> copy_shards op shs ret')"

definition map_sharded_copy :: "('p handle \<Rightarrow> bool) \<Rightarrow> ('k, 'p) map_sharded_t \<Rightarrow> 'p handle list" where
  "map_sharded_copy op m = copy_shards op (shards m) []"

text \<open>The overload without a predicate (lines 204-209) passes a closure that returns \<^verbatim>\<open>true\<close>.\<close>

definition map_sharded_copy_all :: "('k, 'p) map_sharded_t \<Rightarrow> 'p handle list" where
  "map_sharded_copy_all m = map_sharded_copy (\<lambda>_. True) m"

subsection \<open>Sequences of calls\<close>

text \<open>
  The entries a shard holds, and the live entries of the whole map in shard order.
\<close>

definition shard_entries :: "('k, 'p) map_lock_t \<Rightarrow> ('k, 'p) entry list" where
  "shard_entries sh = (case map_ptr sh of None \<Rightarrow> [] | Some mp \<Rightarrow> mp)"

definition live_entries :: "('k, 'p) map_sharded_t \<Rightarrow> ('k, 'p) entry list" where
  "live_entries m = concat (map shard_entries (shards m))"

text \<open>
  One call of a public member function of \<^verbatim>\<open>map_sharded_t\<close>.  A visitor comes with the
  state its closure starts in.
\<close>

datatype ('k, 'p, 's, 'c) operation =
    Try_emplace 'k "'p handle"
  | Size
  | Find 'k
  | Erase 'k
  | Erase_if "('c, 'k, 'p) closure"
  | Erase_one "('c, 'k, 'p) closure"
  | For_each "('k, 'p, 's) bool_visitor" 's
  | For_each_void "('k, 'p, 's) void_visitor" 's
  | Copy "'p handle \<Rightarrow> bool"

text \<open>
  \<open>apply_operation\<close> makes the call and returns the map after it with two counts: 1 if
  the call is a \<^verbatim>\<open>try_emplace\<close> that returned \<open>inserted = true\<close>, and the number of
  entries that an \<^verbatim>\<open>erase\<close>, \<^verbatim>\<open>erase_if\<close> or \<^verbatim>\<open>erase_one\<close> took out of the map.  A call
  whose behaviour is undefined ends the sequence.
\<close>

definition removed_entries :: "('k, 'p) map_sharded_t \<Rightarrow> ('k, 'p) map_sharded_t \<Rightarrow> nat" where
  "removed_entries m m' = length (live_entries m) - length (live_entries m')"

fun apply_operation ::
  "('k \<Rightarrow> size_t) \<Rightarrow> ('k, 'p, 's, 'c) operation \<Rightarrow> ('k, 'p) map_sharded_t
     \<Rightarrow> fault + (('k, 'p) map_sharded_t \<times> nat \<times> nat)" where
  "apply_operation H (Try_emplace key args) m =
     (case map_sharded_try_emplace H key args m of
        Inl f \<Rightarrow> Inl f
      | Inr (result, m') \<Rightarrow> Inr (m', if snd result then 1 else 0, 0))"
| "apply_operation H Size m = (case map_sharded_size m of n \<Rightarrow> Inr (m, 0, 0))"
| "apply_operation H (Find key) m =
     (case map_sharded_find H key m of
        Inl f \<Rightarrow> Inl f
      | Inr h \<Rightarrow> Inr (m, 0, 0))"
| "apply_operation H (Erase key) m =
     (case map_sharded_erase H key m of
        Inl f \<Rightarrow> Inl f
      | Inr (result, m') \<Rightarrow> Inr (m', 0, removed_entries m m'))"
| "apply_operation H (Erase_if op) m =
     (case map_sharded_erase_if op m of (result, m') \<Rightarrow> Inr (m', 0, removed_entries m m'))"
| "apply_operation H (Erase_one op) m =
     (case map_sharded_erase_one op m of (result, m') \<Rightarrow> Inr (m', 0, removed_entries m m'))"
| "apply_operation H (For_each op s) m =
     (case map_sharded_for_each op m s of (m', s') \<Rightarrow> Inr (m', 0, 0))"
| "apply_operation H (For_each_void op s) m =
     (case map_sharded_for_each_void op m s of (m', s') \<Rightarrow> Inr (m', 0, 0))"
| "apply_operation H (Copy op) m = (case map_sharded_copy op m of ret \<Rightarrow> Inr (m, 0, 0))"

text \<open>
  \<open>run\<close> makes the calls one after the other, none overlapping another, and adds the
  counts up: \<open>N\<close> insertions and \<open>M\<close> removed entries.
\<close>

fun run ::
  "('k \<Rightarrow> size_t) \<Rightarrow> ('k, 'p, 's, 'c) operation list \<Rightarrow> ('k, 'p) map_sharded_t
     \<Rightarrow> fault + (('k, 'p) map_sharded_t \<times> nat \<times> nat)" where
  "run H [] m = Inr (m, 0, 0)"
| "run H (c # cs) m =
     (case apply_operation H c m of
        Inl f \<Rightarrow> Inl f
      | Inr (m', ins, rem) \<Rightarrow>
          (case run H cs m' of
             Inl f \<Rightarrow> Inl f
           | Inr (m'', N, M) \<Rightarrow> Inr (m'', ins + N, rem + M)))"

text \<open>
  The invariant of a map that a constructor call and a sequence of calls produce: every
  entry sits in the shard its key hashes to, no shard holds a key twice, and the counter
  is the number of live entries.
\<close>

definition routed :: "('k \<Rightarrow> size_t) \<Rightarrow> ('k, 'p) map_sharded_t \<Rightarrow> bool" where
  "routed H m =
     (\<forall>i < length (shards m). \<forall>e \<in> set (shard_entries (shards m ! i)).
        unat (H (fst e)) mod length (shards m) = i)"

definition unique_keys :: "('k, 'p) map_sharded_t \<Rightarrow> bool" where
  "unique_keys m = (\<forall>sh \<in> set (shards m). distinct (map fst (shard_entries sh)))"

definition counted :: "('k, 'p) map_sharded_t \<Rightarrow> bool" where
  "counted m = (size_atomic m = word_of_nat (length (live_entries m)))"

definition well_formed :: "('k \<Rightarrow> size_t) \<Rightarrow> ('k, 'p) map_sharded_t \<Rightarrow> bool" where
  "well_formed H m = (routed H m \<and> unique_keys m \<and> counted m)"

text \<open>
  A shard that holds the entries of another that pass some test: what a removal leaves.
\<close>

definition filtered :: "('k, 'p) map_lock_t \<Rightarrow> ('k, 'p) map_lock_t \<Rightarrow> bool" where
  "filtered sh' sh = (\<exists>q. shard_entries sh' = filter q (shard_entries sh))"

text \<open>
  Calls on one shard, for counting how often a shard's storage is allocated: a step
  allocates when the shard has no storage before it and has storage after it.
\<close>

datatype ('k, 'p, 's, 'c) shard_operation =
    Shard_find 'k
  | Shard_try_emplace 'k "'p handle"
  | Shard_erase 'k
  | Shard_erase_if "('c, 'k, 'p) closure"
  | Shard_for_each "('k, 'p, 's) bool_visitor" 's
  | Shard_for_each_void "('k, 'p, 's) void_visitor" 's
  | Shard_for_each_const "('k, 'p) entry \<Rightarrow> 's \<Rightarrow> 's" 's

fun apply_shard_operation ::
  "('k, 'p, 's, 'c) shard_operation \<Rightarrow> ('k, 'p) map_lock_t \<Rightarrow> ('k, 'p) map_lock_t" where
  "apply_shard_operation (Shard_find key) sh = (case map_lock_find key sh of r \<Rightarrow> sh)"
| "apply_shard_operation (Shard_try_emplace key args) sh = snd (map_lock_try_emplace key args sh)"
| "apply_shard_operation (Shard_erase key) sh = snd (map_lock_erase key sh)"
| "apply_shard_operation (Shard_erase_if op) sh = fst (snd (map_lock_erase_if op sh))"
| "apply_shard_operation (Shard_for_each op s) sh = fst (snd (map_lock_for_each op sh s))"
| "apply_shard_operation (Shard_for_each_void op s) sh = fst (snd (map_lock_for_each_void op sh s))"
| "apply_shard_operation (Shard_for_each_const op s) sh =
     (case map_lock_for_each_const op sh s of r \<Rightarrow> sh)"

fun is_write :: "('k, 'p, 's, 'c) shard_operation \<Rightarrow> bool" where
  "is_write (Shard_try_emplace key args) = True"
| "is_write c = False"

fun allocations :: "('k, 'p, 's, 'c) shard_operation list \<Rightarrow> ('k, 'p) map_lock_t \<Rightarrow> nat" where
  "allocations [] sh = 0"
| "allocations (c # cs) sh =
     (if map_ptr sh = None \<and> map_ptr (apply_shard_operation c sh) \<noteq> None then 1 else 0)
       + allocations cs (apply_shard_operation c sh)"

section \<open>Properties\<close>

subsection \<open>The shard's member functions\<close>

lemma map_find_None: "map_find key mp = None \<longleftrightarrow> key \<notin> fst ` set mp"
  by (force simp: map_find_def find_None_iff)

lemma map_find_Some: "map_find key mp = Some e \<Longrightarrow> e \<in> set mp \<and> fst e = key"
  by (auto simp: map_find_def find_Some_iff)

lemma map_find_present: "key \<in> fst ` set mp \<Longrightarrow> \<exists>e. map_find key mp = Some e"
  using map_find_None [of key mp] by (cases "map_find key mp") auto

lemma shard_entries_update [simp]: "shard_entries (sh\<lparr>map_ptr := Some mp\<rparr>) = mp"
  by (simp add: shard_entries_def)

lemma map_lock_try_emplace_absent:
  assumes "key \<notin> fst ` set (shard_entries sh)"
  shows "map_lock_try_emplace key args sh
       = (((key, args), True), sh\<lparr>map_ptr := Some (shard_entries sh @ [(key, args)])\<rparr>)"
proof (cases "map_ptr sh")
  case None
  then show ?thesis
    by (simp add: map_lock_try_emplace_def visit_map_def map_try_emplace_def shard_entries_def
        map_find_def)
next
  case (Some mp)
  with assms have "map_find key mp = None"
    by (simp add: map_find_None shard_entries_def)
  with Some show ?thesis
    by (simp add: map_lock_try_emplace_def visit_map_def map_try_emplace_def shard_entries_def)
qed

lemma map_lock_try_emplace_present:
  "map_find key (shard_entries sh) = Some e \<Longrightarrow> map_lock_try_emplace key args sh = ((e, False), sh)"
  by (auto simp: map_lock_try_emplace_def visit_map_def map_try_emplace_def shard_entries_def
      map_find_def split: option.splits)

lemma map_lock_erase_eq:
  "map_lock_erase key sh =
     (word_of_nat (length (filter (\<lambda>e. fst e = key) (shard_entries sh))),
      (case map_ptr sh of None \<Rightarrow> sh
       | Some mp \<Rightarrow> sh\<lparr>map_ptr := Some (filter (\<lambda>e. fst e \<noteq> key) mp)\<rparr>))"
  by (simp add: map_lock_erase_def map_erase_def shard_entries_def split: option.splits)

lemma map_lock_erase_if_eq:
  "map_lock_erase_if op sh =
     (word_of_nat (length (filter (predicate_of op) (shard_entries sh))),
      (case map_ptr sh of None \<Rightarrow> sh
       | Some mp \<Rightarrow> sh\<lparr>map_ptr := Some (filter (\<lambda>e. \<not> predicate_of op e) mp)\<rparr>),
      (case map_ptr sh of None \<Rightarrow> op | Some mp \<Rightarrow> snd (forward_by_value op)))"
  by (simp add: map_lock_erase_if_def std_erase_if_def shard_entries_def forward_by_value_def
      split: option.splits)

lemma shard_entries_erase: "shard_entries (snd (map_lock_erase key sh)) = filter (\<lambda>e. fst e \<noteq> key) (shard_entries sh)"
  by (simp add: map_lock_erase_eq shard_entries_def split: option.splits)

lemma shard_entries_erase_if:
  "shard_entries (fst (snd (map_lock_erase_if op sh)))
     = filter (\<lambda>e. \<not> predicate_of op e) (shard_entries sh)"
  by (simp add: map_lock_erase_if_eq shard_entries_def split: option.splits)

lemma for_each_entries_keys:
  "for_each_entries op es s = (es', s') \<Longrightarrow> map fst es' = map fst es"
proof (induction es arbitrary: s es' s')
  case Nil
  then show ?case by simp
next
  case (Cons e es)
  obtain go_on v s1 where step: "op e s = (go_on, v, s1)"
    by (cases "op e s") auto
  show ?case
  proof (cases go_on)
    case False
    with Cons.prems step show ?thesis by auto
  next
    case True
    obtain es1 s2 where rest: "for_each_entries op es s1 = (es1, s2)"
      by (cases "for_each_entries op es s1") auto
    from Cons.IH [OF rest] Cons.prems step True rest show ?thesis by auto
  qed
qed

lemma for_each_entries_void_keys:
  "for_each_entries_void op es s = (es', s') \<Longrightarrow> map fst es' = map fst es"
proof (induction es arbitrary: s es' s')
  case Nil
  then show ?case by simp
next
  case (Cons e es)
  obtain v s1 where step: "op e s = (v, s1)"
    by (cases "op e s") auto
  obtain es1 s2 where rest: "for_each_entries_void op es s1 = (es1, s2)"
    by (cases "for_each_entries_void op es s1") auto
  from Cons.IH [OF rest] Cons.prems step rest show ?case by auto
qed

lemma shard_keys_for_each:
  "map_lock_for_each op sh s = (b, sh', s') \<Longrightarrow>
     map fst (shard_entries sh') = map fst (shard_entries sh) \<and> (map_ptr sh' = None \<longleftrightarrow> map_ptr sh = None)"
  by (auto simp: map_lock_for_each_def shard_entries_def split: option.splits prod.splits
      dest: for_each_entries_keys)

lemma shard_keys_for_each_void:
  "map_lock_for_each_void op sh s = (b, sh', s') \<Longrightarrow>
     map fst (shard_entries sh') = map fst (shard_entries sh) \<and> (map_ptr sh' = None \<longleftrightarrow> map_ptr sh = None)"
  by (auto simp: map_lock_for_each_void_def shard_entries_def split: option.splits prod.splits
      dest: for_each_entries_void_keys)


lemma live_update:
  "i < length shs \<Longrightarrow>
     length (concat (map shard_entries (shs[i := sh']))) + length (shard_entries (shs ! i))
       = length (concat (map shard_entries shs)) + length (shard_entries sh')"
proof (induction shs arbitrary: i)
  case Nil
  then show ?case by simp
next
  case (Cons sh shs)
  show ?case
  proof (cases i)
    case 0
    then show ?thesis by simp
  next
    case (Suc j)
    with Cons.prems have "j < length shs" by simp
    from Cons.IH [OF this] Suc show ?thesis by simp
  qed
qed

lemma get_sharded_eq:
  "shards m \<noteq> [] \<Longrightarrow> get_sharded h m = Inr (unat h mod length (shards m))"
  by (simp add: get_sharded_def)

lemma get_sharded_empty: "shards m = [] \<Longrightarrow> get_sharded h m = Inl Division_By_Zero"
  by (simp add: get_sharded_def)

lemma map_sharded_try_emplace_shards:
  "map_sharded_try_emplace H key args m = Inr r \<Longrightarrow> shards m \<noteq> []"
  by (auto simp: map_sharded_try_emplace_def get_sharded_empty)

lemma map_sharded_erase_shards:
  "map_sharded_erase H key m = Inr r \<Longrightarrow> shards m \<noteq> []"
  by (auto simp: map_sharded_erase_def get_sharded_empty)


lemma well_formed_step:
  assumes wf: "well_formed H m"
    and len: "length shs' = length (shards m)"
    and keys: "\<And>j e. j < length (shards m) \<Longrightarrow> e \<in> set (shard_entries (shs' ! j)) \<Longrightarrow>
                 fst e \<in> fst ` set (shard_entries (shards m ! j))
                 \<or> unat (H (fst e)) mod length (shards m) = j"
    and dist: "\<And>j. j < length (shards m) \<Longrightarrow> distinct (map fst (shard_entries (shards m ! j))) \<Longrightarrow>
                 distinct (map fst (shard_entries (shs' ! j)))"
    and cnt: "sz' = word_of_nat (length (concat (map shard_entries shs')))"
  shows "well_formed H (m\<lparr>shards := shs', size_atomic := sz'\<rparr>)"
proof -
  from wf have r: "routed H m" and u: "unique_keys m"
    by (simp_all add: well_formed_def)
  have "routed H (m\<lparr>shards := shs', size_atomic := sz'\<rparr>)"
    unfolding routed_def
  proof (intro allI impI ballI)
    fix i e
    assume i: "i < length (shards (m\<lparr>shards := shs', size_atomic := sz'\<rparr>))"
      and e: "e \<in> set (shard_entries (shards (m\<lparr>shards := shs', size_atomic := sz'\<rparr>) ! i))"
    from i len have i': "i < length (shards m)" by simp
    from e have "e \<in> set (shard_entries (shs' ! i))" by simp
    from keys [OF i' this] show
      "unat (H (fst e)) mod length (shards (m\<lparr>shards := shs', size_atomic := sz'\<rparr>)) = i"
    proof
      assume "fst e \<in> fst ` set (shard_entries (shards m ! i))"
      then obtain e' where "e' \<in> set (shard_entries (shards m ! i))" and "fst e' = fst e"
        by auto
      with r i' have "unat (H (fst e)) mod length (shards m) = i"
        unfolding routed_def by metis
      with len show ?thesis by simp
    next
      assume "unat (H (fst e)) mod length (shards m) = i"
      with len show ?thesis by simp
    qed
  qed
  moreover have "unique_keys (m\<lparr>shards := shs', size_atomic := sz'\<rparr>)"
    unfolding unique_keys_def
  proof
    fix sh assume "sh \<in> set (shards (m\<lparr>shards := shs', size_atomic := sz'\<rparr>))"
    then obtain j where j: "j < length shs'" and sh: "sh = shs' ! j"
      by (auto simp: in_set_conv_nth)
    from j len have j': "j < length (shards m)" by simp
    then have "shards m ! j \<in> set (shards m)" by simp
    with u have "distinct (map fst (shard_entries (shards m ! j)))"
      by (simp add: unique_keys_def)
    from dist [OF j' this] sh show "distinct (map fst (shard_entries sh))" by simp
  qed
  moreover have "counted (m\<lparr>shards := shs', size_atomic := sz'\<rparr>)"
    using cnt by (simp add: counted_def live_entries_def)
  ultimately show ?thesis by (simp add: well_formed_def)
qed


lemma map_sharded_try_emplace_eq:
  "shards m \<noteq> [] \<Longrightarrow>
     map_sharded_try_emplace H key args m =
       (case map_lock_try_emplace key args (shards m ! (unat (H key) mod length (shards m))) of
          (result, sh') \<Rightarrow>
            Inr (result,
                 m\<lparr>shards := (shards m)[unat (H key) mod length (shards m) := sh'],
                   size_atomic := (if snd result then size_atomic m + 1 else size_atomic m)\<rparr>))"
  by (simp add: map_sharded_try_emplace_def get_sharded_eq)

lemma map_sharded_try_emplace_present:
  assumes "shards m \<noteq> []"
    and "map_find key (shard_entries (shards m ! (unat (H key) mod length (shards m)))) = Some e"
  shows "map_sharded_try_emplace H key args m = Inr ((e, False), m)"
  using assms by (simp add: map_sharded_try_emplace_eq map_lock_try_emplace_present)

lemma map_sharded_try_emplace_absent:
  assumes "shards m \<noteq> []"
    and "key \<notin> fst ` set (shard_entries (shards m ! (unat (H key) mod length (shards m))))"
  shows "map_sharded_try_emplace H key args m =
     Inr (((key, args), True),
          m\<lparr>shards := (shards m)[unat (H key) mod length (shards m) :=
                 (shards m ! (unat (H key) mod length (shards m)))
                   \<lparr>map_ptr := Some (shard_entries (shards m ! (unat (H key) mod length (shards m)))
                      @ [(key, args)])\<rparr>],
            size_atomic := size_atomic m + 1\<rparr>)"
  using assms by (simp add: map_sharded_try_emplace_eq map_lock_try_emplace_absent)




lemma well_formed_try_emplace:
  assumes wf: "well_formed H m"
    and call: "map_sharded_try_emplace H key args m = Inr (result, m')"
  shows "well_formed H m' \<and>
         length (live_entries m') = length (live_entries m) + (if snd result then 1 else 0)"
proof -
  define i where "i = unat (H key) mod length (shards m)"
  from call have ne: "shards m \<noteq> []" by (rule map_sharded_try_emplace_shards)
  from wf have cnt: "counted m" by (simp add: well_formed_def)
  from ne have i: "i < length (shards m)" by (simp add: i_def)
  show ?thesis
  proof (cases "key \<in> fst ` set (shard_entries (shards m ! i))")
    case True
    from map_find_present [OF this]
    obtain e where "map_find key (shard_entries (shards m ! i)) = Some e" ..
    from map_sharded_try_emplace_present [where H = H and key = key and args = args, OF ne this [unfolded i_def]] call
    have "result = (e, False)" and "m' = m" by simp_all
    with wf show ?thesis by simp
  next
    case False
    let ?sh' = "(shards m ! i)\<lparr>map_ptr := Some (shard_entries (shards m ! i) @ [(key, args)])\<rparr>"
    from map_sharded_try_emplace_absent [where H = H and key = key and args = args, OF ne False [unfolded i_def]] call
    have res: "result = ((key, args), True)"
      and m': "m' = m\<lparr>shards := (shards m)[i := ?sh'], size_atomic := size_atomic m + 1\<rparr>"
      by (simp_all add: i_def)
    from live_update [OF i, of ?sh']
    have live: "length (concat (map shard_entries ((shards m)[i := ?sh'])))
                  = length (concat (map shard_entries (shards m))) + 1"
      by simp
    have "well_formed H (m\<lparr>shards := (shards m)[i := ?sh'], size_atomic := size_atomic m + 1\<rparr>)"
    proof (rule well_formed_step [OF wf])
      show "length ((shards m)[i := ?sh']) = length (shards m)" by simp
    next
      fix j e
      assume "j < length (shards m)" and "e \<in> set (shard_entries ((shards m)[i := ?sh'] ! j))"
      then show "fst e \<in> fst ` set (shard_entries (shards m ! j))
                 \<or> unat (H (fst e)) mod length (shards m) = j"
        using i by (cases "j = i") (auto simp: i_def)
    next
      fix j
      assume "j < length (shards m)" and "distinct (map fst (shard_entries (shards m ! j)))"
      then show "distinct (map fst (shard_entries ((shards m)[i := ?sh'] ! j)))"
        using i False by (cases "j = i") auto
    next
      from cnt live show "size_atomic m + 1
          = word_of_nat (length (concat (map shard_entries ((shards m)[i := ?sh']))))"
        by (simp add: counted_def live_entries_def)
    qed
    with m' res live show ?thesis by (simp add: live_entries_def)
  qed
qed


lemma map_sharded_erase_eq:
  "shards m \<noteq> [] \<Longrightarrow>
     map_sharded_erase H key m =
       Inr (fst (map_lock_erase key (shards m ! (unat (H key) mod length (shards m)))),
            m\<lparr>shards := (shards m)[unat (H key) mod length (shards m) :=
                   snd (map_lock_erase key (shards m ! (unat (H key) mod length (shards m))))],
              size_atomic := size_atomic m
                 - fst (map_lock_erase key (shards m ! (unat (H key) mod length (shards m))))\<rparr>)"
  by (simp add: map_sharded_erase_def get_sharded_eq case_prod_beta)

lemma fst_map_lock_erase:
  "fst (map_lock_erase key sh) = word_of_nat (length (filter (\<lambda>e. fst e = key) (shard_entries sh)))"
  by (simp add: map_lock_erase_eq)

lemma fst_map_lock_erase_if:
  "fst (map_lock_erase_if op sh) = word_of_nat (length (filter (predicate_of op) (shard_entries sh)))"
  by (simp add: map_lock_erase_if_eq)

lemma length_filter_split:
  "length xs = length (filter P xs) + length (filter (\<lambda>x. \<not> P x) xs)"
  using sum_length_filter_compl [of P xs] by simp

lemma distinct_key_count:
  "distinct (map fst es) \<Longrightarrow> length (filter (\<lambda>e. fst e = key) es) \<le> 1"
proof (induction es)
  case Nil
  then show ?case by simp
next
  case (Cons e es)
  show ?case
  proof (cases "fst e = key")
    case True
    from Cons.prems have "fst e \<notin> fst ` set es" by simp
    with True have "\<forall>x \<in> set es. fst x \<noteq> key" by (metis imageI)
    then have "filter (\<lambda>e. fst e = key) es = []"
      by (simp add: filter_empty_conv)
    with True show ?thesis by simp
  next
    case False
    with Cons show ?thesis by simp
  qed
qed

lemma well_formed_erase:
  assumes wf: "well_formed H m"
    and call: "map_sharded_erase H key m = Inr (result, m')"
  shows "well_formed H m' \<and> (result = 0 \<or> result = 1) \<and>
         result = word_of_nat (length (live_entries m) - length (live_entries m')) \<and>
         length (live_entries m') \<le> length (live_entries m)"
proof -
  define i where "i = unat (H key) mod length (shards m)"
  define c where "c = length (filter (\<lambda>e. fst e = key) (shard_entries (shards m ! i)))"
  let ?sh' = "snd (map_lock_erase key (shards m ! i))"
  from call have ne: "shards m \<noteq> []" by (rule map_sharded_erase_shards)
  from wf have cnt: "counted m" and u: "unique_keys m"
    by (simp_all add: well_formed_def)
  from ne have i: "i < length (shards m)" by (simp add: i_def)
  from map_sharded_erase_eq [where H = H and key = key, OF ne] call
  have res: "result = word_of_nat c"
    and m': "m' = m\<lparr>shards := (shards m)[i := ?sh'], size_atomic := size_atomic m - word_of_nat c\<rparr>"
    by (simp_all add: i_def c_def fst_map_lock_erase)
  have split: "length (shard_entries (shards m ! i)) = c + length (shard_entries ?sh')"
    unfolding c_def shard_entries_erase by (rule length_filter_split)
  from live_update [OF i, of ?sh'] split
  have live: "length (concat (map shard_entries (shards m)))
                = length (concat (map shard_entries ((shards m)[i := ?sh']))) + c"
    by simp
  from i have "shards m ! i \<in> set (shards m)" by simp
  with u have "distinct (map fst (shard_entries (shards m ! i)))"
    by (simp add: unique_keys_def)
  then have "c \<le> 1" unfolding c_def by (rule distinct_key_count)
  then have c01: "c = 0 \<or> c = 1" by arith
  have "well_formed H (m\<lparr>shards := (shards m)[i := ?sh'], size_atomic := size_atomic m - word_of_nat c\<rparr>)"
  proof (rule well_formed_step [OF wf])
    show "length ((shards m)[i := ?sh']) = length (shards m)" by simp
  next
    fix j e
    assume "j < length (shards m)" and "e \<in> set (shard_entries ((shards m)[i := ?sh'] ! j))"
    then show "fst e \<in> fst ` set (shard_entries (shards m ! j))
               \<or> unat (H (fst e)) mod length (shards m) = j"
      using i by (cases "j = i") (auto simp: shard_entries_erase)
  next
    fix j
    assume "j < length (shards m)" and "distinct (map fst (shard_entries (shards m ! j)))"
    then show "distinct (map fst (shard_entries ((shards m)[i := ?sh'] ! j)))"
      using i by (cases "j = i") (auto simp: shard_entries_erase distinct_map_filter)
  next
    from cnt live show "size_atomic m - word_of_nat c
        = word_of_nat (length (concat (map shard_entries ((shards m)[i := ?sh']))))"
      by (simp add: counted_def live_entries_def)
  qed
  moreover from c01 res have "result = 0 \<or> result = 1" by auto
  moreover from live m' have "length (live_entries m) - length (live_entries m') = c"
    by (simp add: live_entries_def)
  moreover from live m' have "length (live_entries m') \<le> length (live_entries m)"
    by (simp add: live_entries_def)
  ultimately show ?thesis using m' res by simp
qed


lemma well_formed_keep:
  assumes wf: "well_formed H m"
    and keep: "list_all2 (\<lambda>sh' sh.
                 set (map fst (shard_entries sh')) \<subseteq> set (map fst (shard_entries sh)) \<and>
                 (distinct (map fst (shard_entries sh)) \<longrightarrow> distinct (map fst (shard_entries sh'))))
               shs' (shards m)"
    and cnt: "sz' = word_of_nat (length (concat (map shard_entries shs')))"
  shows "well_formed H (m\<lparr>shards := shs', size_atomic := sz'\<rparr>)"
proof (rule well_formed_step [OF wf _ _ _ cnt])
  from keep show len: "length shs' = length (shards m)"
    by (rule list_all2_lengthD)
next
  fix j e
  assume j: "j < length (shards m)" and e: "e \<in> set (shard_entries (shs' ! j))"
  from keep j have "set (map fst (shard_entries (shs' ! j))) \<subseteq> set (map fst (shard_entries (shards m ! j)))"
    by (simp add: list_all2_conv_all_nth)
  with e have "fst e \<in> fst ` set (shard_entries (shards m ! j))" by auto
  then show "fst e \<in> fst ` set (shard_entries (shards m ! j))
             \<or> unat (H (fst e)) mod length (shards m) = j" ..
next
  fix j
  assume j: "j < length (shards m)" and "distinct (map fst (shard_entries (shards m ! j)))"
  with keep show "distinct (map fst (shard_entries (shs' ! j)))"
    by (simp add: list_all2_conv_all_nth)
qed

lemma filtered_same: "filtered sh sh"
  unfolding filtered_def by (rule exI [of _ "\<lambda>e. True"]) simp

lemma filtered_erase_if: "filtered (fst (snd (map_lock_erase_if op sh))) sh"
  unfolding filtered_def shard_entries_erase_if by blast

lemma length_shard_entries_erase_if:
  "length (shard_entries sh)
     = length (filter (predicate_of op) (shard_entries sh))
       + length (shard_entries (fst (snd (map_lock_erase_if op sh))))"
  unfolding shard_entries_erase_if by (rule length_filter_split)

lemma erase_if_shards_inv:
  "erase_if_shards op shs tot sz = (shs', tot', sz') \<Longrightarrow>
     list_all2 filtered shs' shs \<and>
     sz' + word_of_nat (length (concat (map shard_entries shs)))
       = sz + word_of_nat (length (concat (map shard_entries shs')))"
proof (induction shs arbitrary: op tot sz shs' tot' sz')
  case Nil
  then show ?case by simp
next
  case (Cons sh shs)
  let ?r = "fst (map_lock_erase_if op sh)"
  let ?sh' = "fst (snd (map_lock_erase_if op sh))"
  let ?op' = "snd (snd (map_lock_erase_if op sh))"
  have r: "?r = word_of_nat (length (filter (predicate_of op) (shard_entries sh)))"
    by (rule fst_map_lock_erase_if)
  note len = length_shard_entries_erase_if [of sh op]
  obtain shs1 tot1 sz1
    where rest: "erase_if_shards ?op' shs (add_assign tot ?r) (sz - ?r) = (shs1, tot1, sz1)"
    by (cases "erase_if_shards ?op' shs (add_assign tot ?r) (sz - ?r)") auto
  with Cons.prems have res: "shs' = ?sh' # shs1" "sz' = sz1"
    by (simp_all add: case_prod_beta)
  from Cons.IH [OF rest]
  have all: "list_all2 filtered shs1 shs"
    and cnt: "sz1 + word_of_nat (length (concat (map shard_entries shs)))
                = sz - ?r + word_of_nat (length (concat (map shard_entries shs1)))"
    by simp_all
  from res all have "list_all2 filtered shs' (sh # shs)"
    by (simp add: filtered_erase_if)
  moreover from cnt r len
  have "sz1 + word_of_nat (length (concat (map shard_entries (sh # shs))))
          = sz + word_of_nat (length (concat (map shard_entries (?sh' # shs1))))"
    by (simp add: algebra_simps)
  ultimately show ?case using res by simp
qed

lemma erase_one_shards_inv:
  "erase_one_shards op shs tot sz = (shs', tot', sz') \<Longrightarrow>
     list_all2 filtered shs' shs \<and>
     sz' + word_of_nat (length (concat (map shard_entries shs)))
       = sz + word_of_nat (length (concat (map shard_entries shs')))"
proof (induction shs arbitrary: op tot sz shs' tot' sz')
  case Nil
  then show ?case by simp
next
  case (Cons sh shs)
  let ?r = "fst (map_lock_erase_if op sh)"
  let ?sh' = "fst (snd (map_lock_erase_if op sh))"
  let ?op' = "snd (snd (map_lock_erase_if op sh))"
  have r: "?r = word_of_nat (length (filter (predicate_of op) (shard_entries sh)))"
    by (rule fst_map_lock_erase_if)
  note len = length_shard_entries_erase_if [of sh op]
  show ?case
  proof (cases "?r = 0")
    case False
    with Cons.prems have "shs' = ?sh' # shs" and "sz' = sz - ?r"
      by (simp_all add: case_prod_beta)
    with r len show ?thesis
      by (simp add: list_all2_same filtered_same filtered_erase_if)
  next
    case True
    obtain shs1 tot1 sz1 where rest: "erase_one_shards ?op' shs tot sz = (shs1, tot1, sz1)"
      by (cases "erase_one_shards ?op' shs tot sz") auto
    with True Cons.prems have "shs' = ?sh' # shs1" and "sz' = sz1"
      by (simp_all add: case_prod_beta)
    with Cons.IH [OF rest] True r len show ?thesis
      by (simp add: filtered_erase_if)
  qed
qed

text \<open>
  A closure that the caller passed as an lvalue, or whose captures a move leaves as they
  are, is the same closure for every shard.
\<close>

lemma forward_by_value_same:
  "\<not> rvalue op \<or> moved_from op (captures op) = captures op \<Longrightarrow>
     forward_by_value op = (predicate_of op, op)"
  by (auto simp: forward_by_value_def)

lemma map_lock_erase_if_same:
  "\<not> rvalue op \<or> moved_from op (captures op) = captures op \<Longrightarrow>
     snd (snd (map_lock_erase_if op sh)) = op"
  by (simp add: map_lock_erase_if_eq forward_by_value_same split: option.splits)

lemma map_lock_erase_if_no_match:
  assumes "filter (predicate_of op) (shard_entries sh) = []"
  shows "fst (map_lock_erase_if op sh) = 0 \<and> fst (snd (map_lock_erase_if op sh)) = sh"
proof (cases "map_ptr sh")
  case None
  then show ?thesis by (simp add: map_lock_erase_if_def)
next
  case (Some mp)
  with assms have none: "\<forall>e \<in> set mp. \<not> predicate_of op e"
    by (simp add: shard_entries_def filter_empty_conv)
  then have "filter (\<lambda>e. \<not> predicate_of op e) mp = mp" by simp
  moreover from none have "filter (predicate_of op) mp = []" by (simp add: filter_empty_conv)
  moreover from Some have "sh\<lparr>map_ptr := Some mp\<rparr> = sh" by simp
  ultimately show ?thesis using Some
    by (simp add: map_lock_erase_if_def std_erase_if_def forward_by_value_def)
qed

lemma erase_one_shards_first:
  assumes "\<not> rvalue op \<or> moved_from op (captures op) = captures op"
    and "\<forall>x \<in> set pre. filter (predicate_of op) (shard_entries x) = []"
    and "fst (map_lock_erase_if op sh) \<noteq> 0"
  shows "erase_one_shards op (pre @ sh # post) tot sz =
           (pre @ fst (snd (map_lock_erase_if op sh)) # post,
            add_assign tot (fst (map_lock_erase_if op sh)),
            sz - fst (map_lock_erase_if op sh))"
  using assms
  by (induction pre)
    (simp_all add: case_prod_beta map_lock_erase_if_no_match map_lock_erase_if_same)

lemma for_each_shards_keys:
  "for_each_shards op shs s = (shs', s') \<Longrightarrow>
     list_all2 (\<lambda>sh' sh. map fst (shard_entries sh') = map fst (shard_entries sh)) shs' shs"
proof (induction shs arbitrary: s shs' s')
  case Nil
  then show ?case by simp
next
  case (Cons sh shs)
  obtain b sh1 s1 where step: "map_lock_for_each op sh s = (b, sh1, s1)"
    by (cases "map_lock_for_each op sh s") auto
  note keys = shard_keys_for_each [OF step]
  show ?case
  proof (cases b)
    case False
    with Cons.prems step have "shs' = sh1 # shs" by simp
    with keys show ?thesis by (simp add: list_all2_same)
  next
    case True
    obtain shs2 s2 where rest: "for_each_shards op shs s1 = (shs2, s2)"
      by (cases "for_each_shards op shs s1") auto
    with Cons.prems step True have "shs' = sh1 # shs2" by simp
    with keys Cons.IH [OF rest] show ?thesis by simp
  qed
qed

lemma for_each_shards_void_keys:
  "for_each_shards_void op shs s = (shs', s') \<Longrightarrow>
     list_all2 (\<lambda>sh' sh. map fst (shard_entries sh') = map fst (shard_entries sh)) shs' shs"
proof (induction shs arbitrary: s shs' s')
  case Nil
  then show ?case by simp
next
  case (Cons sh shs)
  obtain b sh1 s1 where step: "map_lock_for_each_void op sh s = (b, sh1, s1)"
    by (cases "map_lock_for_each_void op sh s") auto
  note keys = shard_keys_for_each_void [OF step]
  show ?case
  proof (cases b)
    case False
    with Cons.prems step have "shs' = sh1 # shs" by simp
    with keys show ?thesis by (simp add: list_all2_same)
  next
    case True
    obtain shs2 s2 where rest: "for_each_shards_void op shs s1 = (shs2, s2)"
      by (cases "for_each_shards_void op shs s1") auto
    with Cons.prems step True have "shs' = sh1 # shs2" by simp
    with keys Cons.IH [OF rest] show ?thesis by simp
  qed
qed

lemma same_keys_live:
  "list_all2 (\<lambda>sh' sh. map fst (shard_entries sh') = map fst (shard_entries sh)) shs' shs \<Longrightarrow>
     length (concat (map shard_entries shs')) = length (concat (map shard_entries shs))"
proof (induction rule: list_all2_induct)
  case Nil
  then show ?case by simp
next
  case (Cons sh' shs' sh shs)
  from Cons.hyps(1) have "length (map fst (shard_entries sh')) = length (map fst (shard_entries sh))"
    by simp
  with Cons.IH show ?case by simp
qed

subsection \<open>The invariant along a sequence of calls\<close>

lemma filtered_live:
  "list_all2 filtered shs' shs \<Longrightarrow>
     length (concat (map shard_entries shs')) \<le> length (concat (map shard_entries shs))"
proof (induction rule: list_all2_induct)
  case Nil
  then show ?case by simp
next
  case (Cons sh' shs' sh shs)
  from Cons.hyps(1) have "length (shard_entries sh') \<le> length (shard_entries sh)"
    by (auto simp: filtered_def)
  with Cons.IH show ?case by simp
qed

lemma well_formed_filtered:
  assumes wf: "well_formed H m"
    and all: "list_all2 filtered shs' (shards m)"
    and sz: "sz' + word_of_nat (length (concat (map shard_entries (shards m))))
               = size_atomic m + word_of_nat (length (concat (map shard_entries shs')))"
  shows "well_formed H (m\<lparr>shards := shs', size_atomic := sz'\<rparr>) \<and>
         length (live_entries (m\<lparr>shards := shs', size_atomic := sz'\<rparr>)) \<le> length (live_entries m)"
proof -
  from wf have "counted m" by (simp add: well_formed_def)
  with sz have cnt: "sz' = word_of_nat (length (concat (map shard_entries shs')))"
    by (simp add: counted_def live_entries_def)
  from all have "list_all2 (\<lambda>sh' sh.
          set (map fst (shard_entries sh')) \<subseteq> set (map fst (shard_entries sh)) \<and>
          (distinct (map fst (shard_entries sh)) \<longrightarrow> distinct (map fst (shard_entries sh'))))
        shs' (shards m)"
    by (rule list_all2_mono) (auto simp: filtered_def distinct_map_filter)
  from well_formed_keep [OF wf this cnt] filtered_live [OF all] show ?thesis
    by (simp add: live_entries_def)
qed

lemma map_sharded_erase_if_inv:
  assumes wf: "well_formed H m"
  shows "well_formed H (snd (map_sharded_erase_if op m)) \<and>
         length (live_entries (snd (map_sharded_erase_if op m))) \<le> length (live_entries m) \<and>
         length (shards (snd (map_sharded_erase_if op m))) = length (shards m)"
proof -
  obtain shs' tot' sz' where loop: "erase_if_shards op (shards m) 0 (size_atomic m) = (shs', tot', sz')"
    by (cases "erase_if_shards op (shards m) 0 (size_atomic m)") auto
  then have m': "snd (map_sharded_erase_if op m) = m\<lparr>shards := shs', size_atomic := sz'\<rparr>"
    by (simp add: map_sharded_erase_if_def)
  from erase_if_shards_inv [OF loop]
  have all: "list_all2 filtered shs' (shards m)"
    and sz: "sz' + word_of_nat (length (concat (map shard_entries (shards m))))
               = size_atomic m + word_of_nat (length (concat (map shard_entries shs')))"
    by simp_all
  from well_formed_filtered [OF wf all sz] list_all2_lengthD [OF all] m' show ?thesis
    by simp
qed

lemma map_sharded_erase_one_inv:
  assumes wf: "well_formed H m"
  shows "well_formed H (snd (map_sharded_erase_one op m)) \<and>
         length (live_entries (snd (map_sharded_erase_one op m))) \<le> length (live_entries m) \<and>
         length (shards (snd (map_sharded_erase_one op m))) = length (shards m)"
proof -
  obtain shs' tot' sz' where loop: "erase_one_shards op (shards m) 0 (size_atomic m) = (shs', tot', sz')"
    by (cases "erase_one_shards op (shards m) 0 (size_atomic m)") auto
  then have m': "snd (map_sharded_erase_one op m) = m\<lparr>shards := shs', size_atomic := sz'\<rparr>"
    by (simp add: map_sharded_erase_one_def)
  from erase_one_shards_inv [OF loop]
  have all: "list_all2 filtered shs' (shards m)"
    and sz: "sz' + word_of_nat (length (concat (map shard_entries (shards m))))
               = size_atomic m + word_of_nat (length (concat (map shard_entries shs')))"
    by simp_all
  from well_formed_filtered [OF wf all sz] list_all2_lengthD [OF all] m' show ?thesis
    by simp
qed

lemma map_sharded_for_each_inv:
  assumes wf: "well_formed H m"
    and call: "map_sharded_for_each op m s = (m', s')"
  shows "well_formed H m' \<and> length (live_entries m') = length (live_entries m)"
proof -
  obtain shs' where loop: "for_each_shards op (shards m) s = (shs', s')"
    and m': "m' = m\<lparr>shards := shs'\<rparr>"
    using call by (auto simp: map_sharded_for_each_def split: prod.splits)
  note same = for_each_shards_keys [OF loop]
  note live = same_keys_live [OF same]
  from wf have "counted m" by (simp add: well_formed_def)
  with live have cnt: "size_atomic m = word_of_nat (length (concat (map shard_entries shs')))"
    by (simp add: counted_def live_entries_def)
  from same have "list_all2 (\<lambda>sh' sh.
          set (map fst (shard_entries sh')) \<subseteq> set (map fst (shard_entries sh)) \<and>
          (distinct (map fst (shard_entries sh)) \<longrightarrow> distinct (map fst (shard_entries sh'))))
        shs' (shards m)"
    by (rule list_all2_mono) simp
  from well_formed_keep [OF wf this cnt] live m' show ?thesis
    by (simp add: live_entries_def)
qed

lemma map_sharded_for_each_void_inv:
  assumes wf: "well_formed H m"
    and call: "map_sharded_for_each_void op m s = (m', s')"
  shows "well_formed H m' \<and> length (live_entries m') = length (live_entries m)"
proof -
  obtain shs' where loop: "for_each_shards_void op (shards m) s = (shs', s')"
    and m': "m' = m\<lparr>shards := shs'\<rparr>"
    using call by (auto simp: map_sharded_for_each_void_def split: prod.splits)
  note same = for_each_shards_void_keys [OF loop]
  note live = same_keys_live [OF same]
  from wf have "counted m" by (simp add: well_formed_def)
  with live have cnt: "size_atomic m = word_of_nat (length (concat (map shard_entries shs')))"
    by (simp add: counted_def live_entries_def)
  from same have "list_all2 (\<lambda>sh' sh.
          set (map fst (shard_entries sh')) \<subseteq> set (map fst (shard_entries sh)) \<and>
          (distinct (map fst (shard_entries sh)) \<longrightarrow> distinct (map fst (shard_entries sh'))))
        shs' (shards m)"
    by (rule list_all2_mono) simp
  from well_formed_keep [OF wf this cnt] live m' show ?thesis
    by (simp add: live_entries_def)
qed

lemma apply_operation_inv:
  assumes wf: "well_formed H m"
    and call: "apply_operation H c m = Inr (m', ins, rem)"
  shows "well_formed H m' \<and> length (live_entries m') + rem = length (live_entries m) + ins"
proof (cases c)
  case (Try_emplace key args)
  with call obtain result where te: "map_sharded_try_emplace H key args m = Inr (result, m')"
    and "ins = (if snd result then 1 else 0)" and "rem = 0"
    by (auto split: sum.splits)
  with well_formed_try_emplace [OF wf te] show ?thesis by simp
next
  case Size
  with call wf show ?thesis by simp
next
  case (Find key)
  with call wf show ?thesis by (auto split: sum.splits)
next
  case (Erase key)
  with call obtain result where er: "map_sharded_erase H key m = Inr (result, m')"
    and "ins = 0" and "rem = removed_entries m m'"
    by (auto split: sum.splits)
  with well_formed_erase [OF wf er] show ?thesis by (simp add: removed_entries_def)
next
  case (Erase_if op)
  with call have m': "m' = snd (map_sharded_erase_if op m)"
    and "ins = 0" and "rem = removed_entries m m'"
    by (auto split: prod.splits)
  with map_sharded_erase_if_inv [OF wf, of op] show ?thesis
    by (simp add: removed_entries_def)
next
  case (Erase_one op)
  with call have m': "m' = snd (map_sharded_erase_one op m)"
    and "ins = 0" and "rem = removed_entries m m'"
    by (auto split: prod.splits)
  with map_sharded_erase_one_inv [OF wf, of op] show ?thesis
    by (simp add: removed_entries_def)
next
  case (For_each op s)
  with call obtain s' where "map_sharded_for_each op m s = (m', s')" and "ins = 0" and "rem = 0"
    by (auto split: prod.splits)
  with map_sharded_for_each_inv [OF wf this(1)] show ?thesis by simp
next
  case (For_each_void op s)
  with call obtain s' where "map_sharded_for_each_void op m s = (m', s')" and "ins = 0" and "rem = 0"
    by (auto split: prod.splits)
  with map_sharded_for_each_void_inv [OF wf this(1)] show ?thesis by simp
next
  case (Copy op)
  with call wf show ?thesis by simp
qed

lemma run_inv:
  "well_formed H m \<Longrightarrow> run H cs m = Inr (m', N, M) \<Longrightarrow>
     well_formed H m' \<and> length (live_entries m') + M = length (live_entries m) + N"
proof (induction cs arbitrary: m m' N M)
  case Nil
  then show ?case by simp
next
  case (Cons c cs)
  from Cons.prems(2) obtain m1 ins rem m2 N2 M2
    where step: "apply_operation H c m = Inr (m1, ins, rem)"
      and rest: "run H cs m1 = Inr (m2, N2, M2)"
      and res: "m' = m2" "N = ins + N2" "M = rem + M2"
    by (auto split: sum.splits)
  from apply_operation_inv [OF Cons.prems(1) step]
  have wf1: "well_formed H m1"
    and l1: "length (live_entries m1) + rem = length (live_entries m) + ins"
    by simp_all
  from Cons.IH [OF wf1 rest] l1 res show ?case by simp
qed

lemma well_formed_init: "well_formed H (map_sharded_t_init n)"
  by (simp add: well_formed_def routed_def unique_keys_def counted_def live_entries_def
      map_sharded_t_init_def map_lock_t_init_def shard_entries_def)

lemma live_entries_init: "live_entries (map_sharded_t_init n) = []"
  by (simp add: live_entries_def map_sharded_t_init_def map_lock_t_init_def shard_entries_def)

lemma ucast_scast_down: "(ucast (scast (tot :: cint) :: size_t) :: cint) = tot"
  by (rule bit_word_eqI) (auto simp: bit_simps)

lemma add_assign_zero: "add_assign tot 0 = tot"
  by (simp add: add_assign_def ucast_scast_down)

lemma return_total_zero: "return_total 0 = 0"
  by (simp add: return_total_def)

lemma small_total:
  assumes "c < 2 ^ 31"
  shows "return_total (add_assign 0 (word_of_nat c)) = word_of_nat c"
proof -
  from assms have "c < 2 ^ 64"
    by (rule less_le_trans) simp
  then have "add_assign 0 (word_of_nat c) = (word_of_nat c :: cint)"
    by (simp add: add_assign_def unsigned_of_nat take_bit_nat_eq_self)
  moreover from assms have "signed_take_bit 31 (int c) = int c"
    by (simp add: signed_take_bit_int_eq_self)
  ultimately show ?thesis
    by (simp add: return_total_def signed_of_nat)
qed

lemma apply_operation_length:
  assumes "apply_operation H c m = Inr (m', ins, rem)"
  shows "length (shards m') = length (shards m)"
proof (cases c)
  case (Try_emplace key args)
  with assms show ?thesis
    by (auto simp: map_sharded_try_emplace_def split: sum.splits prod.splits)
next
  case Size
  with assms show ?thesis by simp
next
  case (Find key)
  with assms show ?thesis by (auto split: sum.splits)
next
  case (Erase key)
  with assms show ?thesis
    by (auto simp: map_sharded_erase_def split: sum.splits prod.splits)
next
  case (Erase_if op)
  with assms obtain shs' tot' sz' where "erase_if_shards op (shards m) 0 (size_atomic m) = (shs', tot', sz')"
    and "m' = m\<lparr>shards := shs', size_atomic := sz'\<rparr>"
    by (auto simp: map_sharded_erase_if_def split: prod.splits)
  with erase_if_shards_inv [OF this(1)] show ?thesis
    by (auto dest: list_all2_lengthD)
next
  case (Erase_one op)
  with assms obtain shs' tot' sz' where "erase_one_shards op (shards m) 0 (size_atomic m) = (shs', tot', sz')"
    and "m' = m\<lparr>shards := shs', size_atomic := sz'\<rparr>"
    by (auto simp: map_sharded_erase_one_def split: prod.splits)
  with erase_one_shards_inv [OF this(1)] show ?thesis
    by (auto dest: list_all2_lengthD)
next
  case (For_each op s)
  with assms obtain shs' s' where "for_each_shards op (shards m) s = (shs', s')"
    and "m' = m\<lparr>shards := shs'\<rparr>"
    by (auto simp: map_sharded_for_each_def split: prod.splits)
  with for_each_shards_keys [OF this(1)] show ?thesis
    by (auto dest: list_all2_lengthD)
next
  case (For_each_void op s)
  with assms obtain shs' s' where "for_each_shards_void op (shards m) s = (shs', s')"
    and "m' = m\<lparr>shards := shs'\<rparr>"
    by (auto simp: map_sharded_for_each_void_def split: prod.splits)
  with for_each_shards_void_keys [OF this(1)] show ?thesis
    by (auto dest: list_all2_lengthD)
next
  case (Copy op)
  with assms show ?thesis by simp
qed

lemma run_length:
  "run H cs m = Inr (m', N, M) \<Longrightarrow> length (shards m') = length (shards m)"
proof (induction cs arbitrary: m m' N M)
  case Nil
  then show ?case by simp
next
  case (Cons c cs)
  from Cons.prems obtain m1 ins rem m2 N2 M2
    where step: "apply_operation H c m = Inr (m1, ins, rem)"
      and rest: "run H cs m1 = Inr (m2, N2, M2)"
      and res: "m' = m2"
    by (auto split: sum.splits)
  from Cons.IH [OF rest] apply_operation_length [OF step] res show ?case by simp
qed

lemma length_shards_init: "length (shards (map_sharded_t_init n)) = n"
  by (simp add: map_sharded_t_init_def)


subsection \<open>\<^verbatim>\<open>find\<close> on a key that is not in the map\<close>

lemma map_lock_find_unallocated: "map_ptr sh = None \<Longrightarrow> map_lock_find key sh = Inr None"
  by (simp add: map_lock_find_def)

lemma map_lock_find_absent:
  "map_ptr sh = Some mp \<Longrightarrow> key \<notin> fst ` set mp \<Longrightarrow> map_lock_find key sh = Inl End_Iterator_Dereference"
  using map_find_None [of key mp] by (simp add: map_lock_find_def)

text \<open>
  C1.  The claim: \<^verbatim>\<open>find\<close> on a key that is not in the map returns a null handle and does
  not fail, whether the owning shard's storage is unallocated or allocated without the
  key.  The code does so for an unallocated shard (\<open>map_lock_find_unallocated\<close>).  For an
  allocated shard without the key it dereferences the end iterator
  (\<open>map_lock_find_absent\<close>): on a map with one shard, after \<^verbatim>\<open>try_emplace(1, p)\<close> has
  inserted, \<^verbatim>\<open>find(2)\<close> is undefined behaviour, not a null handle.
\<close>

theorem find_absent_key_dereferences_end:
  "map_sharded_try_emplace (\<lambda>k. word_of_nat k) (1::nat) (Some (10::nat)) (map_sharded_t_init 1)
     = Inr (((1, Some 10), True), \<lparr>shards = [\<lparr>map_ptr = Some [(1, Some 10)]\<rparr>], size_atomic = 1\<rparr>)
   \<and> map_sharded_find (\<lambda>k. word_of_nat k) (2::nat)
        \<lparr>shards = [\<lparr>map_ptr = Some [(1, Some (10::nat))]\<rparr>], size_atomic = 1\<rparr>
     = Inl End_Iterator_Dereference"
  by (simp add: map_sharded_try_emplace_def map_sharded_t_init_def get_sharded_def
      map_lock_try_emplace_def visit_map_def map_try_emplace_def map_find_def map_lock_t_init_def
      map_sharded_find_def map_lock_find_def)

subsection \<open>\<^verbatim>\<open>for_each\<close> with a visitor that can stop\<close>

lemma for_each_entries_stops:
  "fst (op e s) = False \<Longrightarrow>
     for_each_entries op (e # es) s = ((fst e, fst (snd (op e s))) # es, snd (snd (op e s)))"
  by (simp add: case_prod_beta)

lemma map_lock_for_each_completed: "fst (map_lock_for_each op sh s) = True"
  by (simp add: map_lock_for_each_def split: option.splits prod.splits)

lemma for_each_entries_never_stopped:
  "(\<And>e s. fst (op e s)) \<Longrightarrow>
     for_each_entries op es s = for_each_entries_void (\<lambda>e s. snd (op e s)) es s"
proof (induction es arbitrary: s)
  case Nil
  then show ?case by simp
next
  case (Cons e es)
  from Cons.prems [of e s] Cons.IH [OF Cons.prems] show ?case
    by (simp add: case_prod_beta)
qed

text \<open>
  C2.  The claim: when the visitor returns \<^verbatim>\<open>false\<close> on an entry, the shard's \<^verbatim>\<open>for_each\<close>
  stops and returns \<^verbatim>\<open>false\<close>, and the map's \<^verbatim>\<open>for_each\<close> visits no further shard.  The
  code stops the loop over the shard's entries (\<open>for_each_entries_stops\<close>), and visits
  every entry when the visitor never returns \<^verbatim>\<open>false\<close> (\<open>for_each_entries_never_stopped\<close>),
  but it returns \<^verbatim>\<open>true\<close> in every case (\<open>map_lock_for_each_completed\<close>), so the map's
  loop goes on.  Here a map with two shards holds the keys 0 and 2 in the first shard and
  the key 1 in the second; the visitor always returns \<^verbatim>\<open>false\<close> and records the keys it
  sees: the first shard returns \<^verbatim>\<open>true\<close> after its first entry, and the visitor is then
  called on the entry of the second shard.
\<close>

theorem for_each_stop_is_reported_completed:
  "run (\<lambda>k. word_of_nat k)
       [Try_emplace (0::nat) (Some (10::nat)), Try_emplace 2 (Some 30), Try_emplace 1 (Some 20)
          :: (nat, nat, unit, unit) operation]
       (map_sharded_t_init 2)
     = Inr (\<lparr>shards = [\<lparr>map_ptr = Some [(0, Some 10), (2, Some 30)]\<rparr>,
                        \<lparr>map_ptr = Some [(1, Some 20)]\<rparr>], size_atomic = 3\<rparr>, 3, 0)
   \<and> map_lock_for_each (\<lambda>e s. (False, snd e, s @ [fst e]))
       \<lparr>map_ptr = Some [(0::nat, Some (10::nat)), (2, Some 30)]\<rparr> []
     = (True, \<lparr>map_ptr = Some [(0, Some 10), (2, Some 30)]\<rparr>, [0])
   \<and> map_sharded_for_each (\<lambda>e s. (False, snd e, s @ [fst e]))
       \<lparr>shards = [\<lparr>map_ptr = Some [(0::nat, Some (10::nat)), (2, Some 30)]\<rparr>,
                  \<lparr>map_ptr = Some [(1, Some 20)]\<rparr>], size_atomic = 3\<rparr> []
     = (\<lparr>shards = [\<lparr>map_ptr = Some [(0, Some 10), (2, Some 30)]\<rparr>,
                   \<lparr>map_ptr = Some [(1, Some 20)]\<rparr>], size_atomic = 3\<rparr>, [0, 1])"
  by code_simp

subsection \<open>Routing\<close>

text \<open>
  C3.  In a map constructed with \<open>n \<ge> 1\<close> shards, after any sequence of calls, the shard
  that \<^verbatim>\<open>find\<close>, \<^verbatim>\<open>try_emplace\<close> and \<^verbatim>\<open>erase\<close> work on for a key is the one at index
  \<open>hash(key) mod n\<close>: the map still has \<open>n\<close> shards, \<^verbatim>\<open>get_sharded\<close> returns that index,
  the index is below \<open>n\<close>, and each of the three member functions is the shard's member
  function applied to the shard at that index.  The index depends on the key and on \<open>n\<close>
  only, so it is the same on every call.
\<close>

theorem shard_index_is_hash_mod_shard_count:
  assumes "1 \<le> n"
    and "run H cs (map_sharded_t_init n) = Inr (m, N, M)"
  shows "length (shards m) = n
       \<and> get_sharded (H key) m = Inr (unat (H key) mod n)
       \<and> unat (H key) mod n < n
       \<and> map_sharded_find H key m = map_lock_find key (shards m ! (unat (H key) mod n))
       \<and> map_sharded_try_emplace H key args m =
           (case map_lock_try_emplace key args (shards m ! (unat (H key) mod n)) of
              (result, sh') \<Rightarrow>
                Inr (result,
                     m\<lparr>shards := (shards m)[unat (H key) mod n := sh'],
                       size_atomic := (if snd result then size_atomic m + 1 else size_atomic m)\<rparr>))
       \<and> map_sharded_erase H key m =
           (case map_lock_erase key (shards m ! (unat (H key) mod n)) of
              (result, sh') \<Rightarrow>
                Inr (result,
                     m\<lparr>shards := (shards m)[unat (H key) mod n := sh'],
                       size_atomic := (if result \<noteq> 0 then size_atomic m - result else size_atomic m)\<rparr>))"
proof -
  from run_length [OF assms(2)] have len: "length (shards m) = n"
    by (simp add: length_shards_init)
  with assms(1) have ne: "shards m \<noteq> []" by auto
  from ne len have idx: "get_sharded (H key) m = Inr (unat (H key) mod n)"
    by (simp add: get_sharded_eq)
  from assms(1) have "unat (H key) mod n < n" by simp
  with len idx show ?thesis
    by (simp add: map_sharded_find_def map_sharded_try_emplace_def map_sharded_erase_def)
qed

theorem shard_index_is_hash_mod_shard_count_witness:
  "(1::nat) \<le> 2
   \<and> run (\<lambda>k. word_of_nat k) [Try_emplace (5::nat) (Some (50::nat)), Erase 3 :: (nat, nat, unit, unit) operation]
      (map_sharded_t_init 2)
     = Inr (\<lparr>shards = [\<lparr>map_ptr = None\<rparr>, \<lparr>map_ptr = Some [(5, Some 50)]\<rparr>], size_atomic = 1\<rparr>, 1, 0)
   \<and> get_sharded (word_of_nat (7::nat))
        \<lparr>shards = [\<lparr>map_ptr = None\<rparr>, \<lparr>map_ptr = Some [(5::nat, Some (50::nat))]\<rparr>], size_atomic = 1\<rparr>
     = Inr 1
   \<and> map_sharded_find (\<lambda>k. word_of_nat k) (7::nat)
        \<lparr>shards = [\<lparr>map_ptr = None\<rparr>, \<lparr>map_ptr = Some [(5::nat, Some (50::nat))]\<rparr>], size_atomic = 1\<rparr>
     = map_lock_find (7::nat) \<lparr>map_ptr = Some [(5::nat, Some (50::nat))]\<rparr>"
proof -
  have r: "run (\<lambda>k. word_of_nat k) [Try_emplace (5::nat) (Some (50::nat)), Erase 3 :: (nat, nat, unit, unit) operation]
      (map_sharded_t_init 2)
     = Inr (\<lparr>shards = [\<lparr>map_ptr = None\<rparr>, \<lparr>map_ptr = Some [(5, Some 50)]\<rparr>], size_atomic = 1\<rparr>, 1, 0)"
    by code_simp
  have n: "(1::nat) \<le> 2" by simp
  note t = shard_index_is_hash_mod_shard_count [OF n r, where key = 7 and args = None]
  from t have a: "get_sharded (word_of_nat (7::nat))
        \<lparr>shards = [\<lparr>map_ptr = None\<rparr>, \<lparr>map_ptr = Some [(5::nat, Some (50::nat))]\<rparr>], size_atomic = 1\<rparr>
     = Inr 1"
    by simp
  from t have b: "map_sharded_find (\<lambda>k. word_of_nat k) (7::nat)
        \<lparr>shards = [\<lparr>map_ptr = None\<rparr>, \<lparr>map_ptr = Some [(5::nat, Some (50::nat))]\<rparr>], size_atomic = 1\<rparr>
     = map_lock_find (7::nat) \<lparr>map_ptr = Some [(5::nat, Some (50::nat))]\<rparr>"
    by simp
  show ?thesis by (intro conjI n r a b)
qed


subsection \<open>The counter\<close>

text \<open>
  C4.  After any sequence of calls on a freshly constructed map, of which \<open>N\<close> were
  \<^verbatim>\<open>try_emplace\<close> calls that inserted and which removed \<open>M\<close> entries in all, \<^verbatim>\<open>size()\<close>
  returns \<open>N - M\<close>: no more was removed than inserted, the counter is the \<^verbatim>\<open>size_t\<close> value
  of \<open>N - M\<close>, that is the number of live entries, and it reads \<open>N - M\<close> as a number
  whenever \<open>N - M\<close> fits \<^verbatim>\<open>size_t\<close>.
\<close>

theorem size_is_insertions_minus_removals:
  assumes "run H cs (map_sharded_t_init n) = Inr (m, N, M)"
  shows "M \<le> N
       \<and> map_sharded_size m = word_of_nat (N - M)
       \<and> length (live_entries m) = N - M
       \<and> (N - M < 2 ^ 64 \<longrightarrow> unat (map_sharded_size m) = N - M)"
proof -
  from run_inv [OF well_formed_init assms]
  have wf: "well_formed H m" and live: "length (live_entries m) + M = N"
    by (simp_all add: live_entries_init)
  define d where "d = N - M"
  from live have le: "M \<le> N" and len: "length (live_entries m) = d"
    by (simp_all add: d_def)
  from wf len have sz: "map_sharded_size m = word_of_nat d"
    by (simp add: well_formed_def counted_def map_sharded_size_def)
  have "d < 2 ^ 64 \<longrightarrow> unat (word_of_nat d :: size_t) = d"
    by (simp add: unat_of_nat)
  with le len sz show ?thesis
    unfolding d_def by simp
qed

theorem size_is_insertions_minus_removals_witness:
  "run (\<lambda>k. word_of_nat k)
      [Try_emplace (1::nat) (Some (10::nat)), Try_emplace 2 (Some 20), Try_emplace 1 (Some 30),
       Try_emplace 3 (Some 30), Erase 2, Erase 7,
       Erase_if \<lparr>captures = Some 30, call = (\<lambda>x e. snd e = x), moved_from = (\<lambda>x. None), rvalue = False\<rparr>
         :: (nat, nat, unit, nat option) operation]
      (map_sharded_t_init 2)
     = Inr (\<lparr>shards = [\<lparr>map_ptr = Some []\<rparr>, \<lparr>map_ptr = Some [(1, Some 10)]\<rparr>], size_atomic = 1\<rparr>, 3, 2)
   \<and> map_sharded_size
        \<lparr>shards = [\<lparr>map_ptr = Some []\<rparr>, \<lparr>map_ptr = Some [(1::nat, Some (10::nat))]\<rparr>], size_atomic = 1\<rparr> = 1
   \<and> unat (map_sharded_size
        \<lparr>shards = [\<lparr>map_ptr = Some []\<rparr>, \<lparr>map_ptr = Some [(1::nat, Some (10::nat))]\<rparr>], size_atomic = 1\<rparr>) = 3 - 2"
proof -
  have r: "run (\<lambda>k. word_of_nat k)
      [Try_emplace (1::nat) (Some (10::nat)), Try_emplace 2 (Some 20), Try_emplace 1 (Some 30),
       Try_emplace 3 (Some 30), Erase 2, Erase 7,
       Erase_if \<lparr>captures = Some 30, call = (\<lambda>x e. snd e = x), moved_from = (\<lambda>x. None), rvalue = False\<rparr>
         :: (nat, nat, unit, nat option) operation]
      (map_sharded_t_init 2)
     = Inr (\<lparr>shards = [\<lparr>map_ptr = Some []\<rparr>, \<lparr>map_ptr = Some [(1, Some 10)]\<rparr>], size_atomic = 1\<rparr>, 3, 2)"
    by code_simp
  note t = size_is_insertions_minus_removals [OF r]
  from t have a: "map_sharded_size
        \<lparr>shards = [\<lparr>map_ptr = Some []\<rparr>, \<lparr>map_ptr = Some [(1::nat, Some (10::nat))]\<rparr>], size_atomic = 1\<rparr> = 1"
    by simp
  from t have b: "unat (map_sharded_size
        \<lparr>shards = [\<lparr>map_ptr = Some []\<rparr>, \<lparr>map_ptr = Some [(1::nat, Some (10::nat))]\<rparr>], size_atomic = 1\<rparr>) = 3 - 2"
    by simp
  show ?thesis by (intro conjI r a b)
qed

subsection \<open>\<^verbatim>\<open>try_emplace\<close>\<close>

lemma shard_entries_live:
  assumes "i < length (shards m)"
  shows "set (shard_entries (shards m ! i)) \<subseteq> set (live_entries m)"
proof
  fix e assume e: "e \<in> set (shard_entries (shards m ! i))"
  from assms have "shards m ! i \<in> set (shards m)" by simp
  with e show "e \<in> set (live_entries m)" by (auto simp: live_entries_def)
qed

lemma live_entries_shard:
  "e \<in> set (live_entries m) \<Longrightarrow> \<exists>j < length (shards m). e \<in> set (shard_entries (shards m ! j))"
proof -
  assume "e \<in> set (live_entries m)"
  then obtain sh where "sh \<in> set (shards m)" and e: "e \<in> set (shard_entries sh)"
    by (auto simp: live_entries_def)
  then obtain j where "j < length (shards m)" and "shards m ! j = sh"
    by (auto simp: in_set_conv_nth)
  with e show ?thesis by auto
qed

lemma routed_key_in_owning_shard:
  assumes r: "routed H m" and e: "e \<in> set (live_entries m)"
  shows "e \<in> set (shard_entries (shards m ! (unat (H (fst e)) mod length (shards m))))"
proof -
  from live_entries_shard [OF e] obtain j
    where j: "j < length (shards m)" and ej: "e \<in> set (shard_entries (shards m ! j))"
    by blast
  with r have "unat (H (fst e)) mod length (shards m) = j"
    by (simp add: routed_def)
  with ej show ?thesis by simp
qed

lemma distinct_keys_same_entry:
  assumes "distinct (map fst es)" and "e \<in> set es" and "e' \<in> set es" and "fst e = fst e'"
  shows "e = e'"
proof -
  from assms(1) have "inj_on fst (set es)" by (simp add: distinct_map)
  from inj_onD [OF this assms(4) assms(2) assms(3)] show ?thesis .
qed

lemma set_live_update:
  "i < length shs \<Longrightarrow> set (shard_entries sh') = insert e (set (shard_entries (shs ! i))) \<Longrightarrow>
     set (concat (map shard_entries (shs[i := sh']))) = insert e (set (concat (map shard_entries shs)))"
proof (induction shs arbitrary: i)
  case Nil
  then show ?case by simp
next
  case (Cons sh shs)
  show ?case
  proof (cases i)
    case 0
    with Cons.prems show ?thesis by auto
  next
    case (Suc j)
    with Cons.prems have "j < length shs"
      and "set (shard_entries sh') = insert e (set (shard_entries (shs ! j)))"
      by simp_all
    from Cons.IH [OF this] Suc show ?thesis by auto
  qed
qed


text \<open>
  C5.  In a map constructed with at least one shard, after any sequence of calls,
  \<^verbatim>\<open>try_emplace(key, args)\<close> returns what the \<^verbatim>\<open>try_emplace\<close> of the shard at index
  \<open>hash(key) mod n\<close> returns, and that shard is the only one it changes.  It returns
  \<open>inserted = true\<close> exactly when the key was in no live entry; then the returned entry
  is the new \<open>(key, args)\<close>, the live entries are the old ones and the new one, and the
  counter is one more.  Otherwise the map with its counter is unchanged, and the returned
  entry is the live entry with this key (there is one only).
\<close>

theorem try_emplace_inserts_once:
  assumes n: "1 \<le> n"
    and run: "run H cs (map_sharded_t_init n) = Inr (m, N, M)"
  shows "\<exists>result m'.
      map_sharded_try_emplace H key args m = Inr (result, m')
    \<and> result = fst (map_lock_try_emplace key args (shards m ! (unat (H key) mod n)))
    \<and> shards m' = (shards m)[unat (H key) mod n :=
                      snd (map_lock_try_emplace key args (shards m ! (unat (H key) mod n)))]
    \<and> (snd result \<longleftrightarrow> key \<notin> fst ` set (live_entries m))
    \<and> (if snd result
        then fst result = (key, args)
           \<and> size_atomic m' = size_atomic m + 1
           \<and> length (live_entries m') = length (live_entries m) + 1
           \<and> set (live_entries m') = insert (key, args) (set (live_entries m))
        else m' = m
           \<and> fst result \<in> set (live_entries m)
           \<and> fst (fst result) = key
           \<and> (\<forall>e \<in> set (live_entries m). fst e = key \<longrightarrow> e = fst result))"
proof -
  define i where "i = unat (H key) mod n"
  from run_inv [OF well_formed_init run]
  have r: "routed H m" and u: "unique_keys m" by (simp_all add: well_formed_def)
  from run_length [OF run] have len: "length (shards m) = n"
    by (simp add: length_shards_init)
  with n have ne: "shards m \<noteq> []" and i: "i < length (shards m)"
    by (auto simp: i_def)
  have i_eq: "unat (H key) mod length (shards m) = i" by (simp add: i_def len)
  have owning: "\<And>e. e \<in> set (live_entries m) \<Longrightarrow> fst e = key \<Longrightarrow>
                  e \<in> set (shard_entries (shards m ! i))"
    using routed_key_in_owning_shard [OF r] i_eq by fastforce
  from i have "shards m ! i \<in> set (shards m)" by simp
  with u have dist: "distinct (map fst (shard_entries (shards m ! i)))"
    by (simp add: unique_keys_def)
  note sub = shard_entries_live [OF i]
  show ?thesis
  proof (cases "key \<in> fst ` set (shard_entries (shards m ! i))")
    case True
    from map_find_present [OF True]
    obtain e where e: "map_find key (shard_entries (shards m ! i)) = Some e" ..
    from map_find_Some [OF e] have e_in: "e \<in> set (shard_entries (shards m ! i))"
      and e_key: "fst e = key" by simp_all
    from e have call: "map_sharded_try_emplace H key args m = Inr ((e, False), m)"
      using map_sharded_try_emplace_present [where H = H and key = key and args = args and m = m and e = e]
        ne i_eq by simp
    from e have shard: "map_lock_try_emplace key args (shards m ! i) = ((e, False), shards m ! i)"
      by (rule map_lock_try_emplace_present)
    from e_in e_key sub have present: "key \<in> fst ` set (live_entries m)" by force
    have uniq: "\<forall>e' \<in> set (live_entries m). fst e' = key \<longrightarrow> e' = e"
    proof (intro ballI impI)
      fix e' assume "e' \<in> set (live_entries m)" and "fst e' = key"
      then have "e' \<in> set (shard_entries (shards m ! i))" by (rule owning)
      from distinct_keys_same_entry [OF dist this e_in] \<open>fst e' = key\<close> e_key
      show "e' = e" by simp
    qed
    from call shard present uniq e_in e_key sub show ?thesis
      unfolding i_def [symmetric] by auto
  next
    case False
    let ?sh' = "(shards m ! i)\<lparr>map_ptr := Some (shard_entries (shards m ! i) @ [(key, args)])\<rparr>"
    let ?m' = "m\<lparr>shards := (shards m)[i := ?sh'], size_atomic := size_atomic m + 1\<rparr>"
    from False have call: "map_sharded_try_emplace H key args m = Inr (((key, args), True), ?m')"
      using map_sharded_try_emplace_absent [where H = H and key = key and args = args and m = m]
        ne i_eq by simp
    from False have shard: "map_lock_try_emplace key args (shards m ! i) = (((key, args), True), ?sh')"
      by (rule map_lock_try_emplace_absent)
    from False owning have absent: "key \<notin> fst ` set (live_entries m)" by force
    from live_update [OF i, of ?sh']
    have live: "length (live_entries ?m') = length (live_entries m) + 1"
      by (simp add: live_entries_def)
    have "set (shard_entries ?sh') = insert (key, args) (set (shard_entries (shards m ! i)))"
      by simp
    from set_live_update [OF i this]
    have elems: "set (live_entries ?m') = insert (key, args) (set (live_entries m))"
      by (simp add: live_entries_def)
    from call shard absent live elems show ?thesis
      unfolding i_def [symmetric] by simp
  qed
qed


theorem try_emplace_inserts_once_witness:
  "(1::nat) \<le> 2
   \<and> run (\<lambda>k. word_of_nat k) [Try_emplace (5::nat) (Some (50::nat)) :: (nat, nat, unit, unit) operation]
        (map_sharded_t_init 2)
     = Inr (\<lparr>shards = [\<lparr>map_ptr = None\<rparr>, \<lparr>map_ptr = Some [(5, Some 50)]\<rparr>], size_atomic = 1\<rparr>, 1, 0)
   \<and> map_sharded_try_emplace (\<lambda>k. word_of_nat k) (5::nat) (Some (99::nat))
        \<lparr>shards = [\<lparr>map_ptr = None\<rparr>, \<lparr>map_ptr = Some [(5, Some 50)]\<rparr>], size_atomic = 1\<rparr>
     = Inr (((5, Some 50), False),
            \<lparr>shards = [\<lparr>map_ptr = None\<rparr>, \<lparr>map_ptr = Some [(5, Some 50)]\<rparr>], size_atomic = 1\<rparr>)"
proof -
  let ?m = "\<lparr>shards = [\<lparr>map_ptr = None\<rparr>, \<lparr>map_ptr = Some [(5::nat, Some (50::nat))]\<rparr>], size_atomic = 1\<rparr>"
  have r: "run (\<lambda>k. word_of_nat k) [Try_emplace (5::nat) (Some (50::nat)) :: (nat, nat, unit, unit) operation]
        (map_sharded_t_init 2) = Inr (?m, 1, 0)"
    by code_simp
  have n: "(1::nat) \<le> 2" by simp
  from try_emplace_inserts_once [OF n r, where key = 5 and args = "Some 99"]
  obtain result m' where call: "map_sharded_try_emplace (\<lambda>k. word_of_nat k) 5 (Some 99) ?m = Inr (result, m')"
    and res: "result = fst (map_lock_try_emplace 5 (Some 99) (shards ?m ! (unat (word_of_nat 5 :: size_t) mod 2)))"
    and rest: "if snd result
        then fst result = (5, Some 99)
           \<and> size_atomic m' = size_atomic ?m + 1
           \<and> length (live_entries m') = length (live_entries ?m) + 1
           \<and> set (live_entries m') = insert (5, Some 99) (set (live_entries ?m))
        else m' = ?m
           \<and> fst result \<in> set (live_entries ?m)
           \<and> fst (fst result) = 5
           \<and> (\<forall>e \<in> set (live_entries ?m). fst e = 5 \<longrightarrow> e = fst result)"
    by blast
  from res have result: "result = ((5, Some 50), False)"
    by (simp add: map_lock_try_emplace_def visit_map_def map_try_emplace_def map_find_def)
  with rest have "m' = ?m" by simp
  with call result have c: "map_sharded_try_emplace (\<lambda>k. word_of_nat k) 5 (Some 99) ?m
      = Inr (((5, Some 50), False), ?m)"
    by simp
  show ?thesis by (intro conjI n r c)
qed

subsection \<open>Removal without a match\<close>

lemma map_lock_erase_no_match:
  "key \<notin> fst ` set (shard_entries sh) \<Longrightarrow> map_lock_erase key sh = (0, sh)"
proof (cases "map_ptr sh")
  case None
  then show ?thesis by (simp add: map_lock_erase_def)
next
  case (Some mp)
  assume "key \<notin> fst ` set (shard_entries sh)"
  with Some have none: "\<forall>e \<in> set mp. fst e \<noteq> key"
    by (auto simp: shard_entries_def)
  then have "filter (\<lambda>e. fst e \<noteq> key) mp = mp" by simp
  moreover from none have "filter (\<lambda>e. fst e = key) mp = []" by (simp add: filter_empty_conv)
  moreover from Some have "sh\<lparr>map_ptr := Some mp\<rparr> = sh" by simp
  ultimately show ?thesis using Some
    by (simp add: map_lock_erase_def map_erase_def)
qed

lemma erase_if_shards_no_match:
  assumes "\<not> rvalue op \<or> moved_from op (captures op) = captures op"
    and "\<forall>sh \<in> set shs. filter (predicate_of op) (shard_entries sh) = []"
  shows "erase_if_shards op shs tot sz = (shs, tot, sz)"
  using assms
  by (induction shs arbitrary: tot sz)
    (simp_all add: case_prod_beta map_lock_erase_if_no_match map_lock_erase_if_same add_assign_zero)

lemma erase_one_shards_no_match:
  assumes "\<not> rvalue op \<or> moved_from op (captures op) = captures op"
    and "\<forall>sh \<in> set shs. filter (predicate_of op) (shard_entries sh) = []"
  shows "erase_one_shards op shs tot sz = (shs, tot, sz)"
  using assms
  by (induction shs arbitrary: tot sz)
    (simp_all add: case_prod_beta map_lock_erase_if_no_match map_lock_erase_if_same)

lemma no_live_match:
  assumes "\<forall>e \<in> set (live_entries m). \<not> predicate_of op e"
  shows "\<forall>sh \<in> set (shards m). filter (predicate_of op) (shard_entries sh) = []"
  using assms by (auto simp: live_entries_def filter_empty_conv)

lemma erase_same_closure_without_match:
  assumes same: "\<not> rvalue op \<or> moved_from op (captures op) = captures op"
    and "\<forall>e \<in> set (live_entries m). \<not> predicate_of op e"
  shows "map_sharded_erase_if op m = (0, m) \<and> map_sharded_erase_one op m = (0, m)"
proof -
  from assms(2) have none: "\<forall>sh \<in> set (shards m). filter (predicate_of op) (shard_entries sh) = []"
    by (rule no_live_match)
  from erase_if_shards_no_match [OF same none]
  have "map_sharded_erase_if op m = (0, m)"
    by (simp add: map_sharded_erase_if_def return_total_zero)
  moreover from erase_one_shards_no_match [OF same none]
  have "map_sharded_erase_one op m = (0, m)"
    by (simp add: map_sharded_erase_one_def return_total_zero)
  ultimately show ?thesis by simp
qed

lemma erase_key_without_match:
  assumes n: "1 \<le> n"
    and run: "run H cs (map_sharded_t_init n) = Inr (m, N, M)"
  shows "(key \<notin> fst ` set (live_entries m) \<longrightarrow> map_sharded_erase H key m = Inr (0, m))
       \<and> (\<exists>result m'. map_sharded_erase H key m = Inr (result, m') \<and> (result = 0 \<or> result = 1))"
proof (intro conjI impI)
  from run_length [OF run] have len: "length (shards m) = n"
    by (simp add: length_shards_init)
  with n have ne: "shards m \<noteq> []" by auto
  let ?i = "unat (H key) mod length (shards m)"
  from ne have i: "?i < length (shards m)" by simp
  {
    assume "key \<notin> fst ` set (live_entries m)"
    with shard_entries_live [OF i] have "key \<notin> fst ` set (shard_entries (shards m ! ?i))"
      by auto
    then have "map_lock_erase key (shards m ! ?i) = (0, shards m ! ?i)"
      by (rule map_lock_erase_no_match)
    with ne show "map_sharded_erase H key m = Inr (0, m)"
      by (simp add: map_sharded_erase_eq)
  }
  from run_inv [OF well_formed_init run] have wf: "well_formed H m" by simp
  from ne have "map_sharded_erase H key m = Inr (fst (map_lock_erase key (shards m ! ?i)),
      m\<lparr>shards := (shards m)[?i := snd (map_lock_erase key (shards m ! ?i))],
        size_atomic := size_atomic m - fst (map_lock_erase key (shards m ! ?i))\<rparr>)"
    by (rule map_sharded_erase_eq)
  from well_formed_erase [OF wf this] this
  show "\<exists>result m'. map_sharded_erase H key m = Inr (result, m') \<and> (result = 0 \<or> result = 1)"
    by blast
qed

text \<open>
  C8.  The claim: when no entry matches, \<^verbatim>\<open>erase\<close>, \<^verbatim>\<open>erase_if\<close> and \<^verbatim>\<open>erase_one\<close> return 0,
  and \<^verbatim>\<open>erase\<close> returns 0 or 1.  \<^verbatim>\<open>erase\<close> does both (\<open>erase_key_without_match\<close>), and
  \<^verbatim>\<open>erase_if\<close> and \<^verbatim>\<open>erase_one\<close> return 0 for a closure that the caller passed as an lvalue
  or that a move leaves as it is (\<open>erase_same_closure_without_match\<close>).  But both loops
  forward the closure to every shard, and a shard with storage moves from it when the
  caller passed an rvalue.  Here the map has two shards, with key 0 and a handle to 10 in
  the first and key 1 and a null handle in the second.  The closure captures a handle
  \<^verbatim>\<open>x\<close> to 99 and tests \<^verbatim>\<open>e.second == x\<close>, so no entry matches; a move leaves \<^verbatim>\<open>x\<close> null.
  Passed as an rvalue, it is moved from at the first shard, the second shard is filtered
  with \<^verbatim>\<open>e.second == nullptr\<close>, and \<^verbatim>\<open>erase_if\<close> and \<^verbatim>\<open>erase_one\<close> both remove the entry of
  key 1 and return 1.
\<close>

theorem erase_if_forwards_moved_from_closure:
  "run (\<lambda>k. word_of_nat k)
       [Try_emplace (0::nat) (Some (10::nat)), Try_emplace 1 None
          :: (nat, nat, unit, nat option) operation]
       (map_sharded_t_init 2)
     = Inr (\<lparr>shards = [\<lparr>map_ptr = Some [(0::nat, Some (10::nat))]\<rparr>, \<lparr>map_ptr = Some [(1, None)]\<rparr>],
          size_atomic = 2\<rparr>, 2, 0)
   \<and> filter (predicate_of
        \<lparr>captures = Some (99::nat), call = (\<lambda>x e. snd e = x), moved_from = (\<lambda>x. None),
          rvalue = True\<rparr>)
        (live_entries
          \<lparr>shards = [\<lparr>map_ptr = Some [(0::nat, Some (10::nat))]\<rparr>, \<lparr>map_ptr = Some [(1, None)]\<rparr>],
          size_atomic = 2\<rparr>) = []
   \<and> map_sharded_erase_if
        \<lparr>captures = Some (99::nat), call = (\<lambda>x e. snd e = x), moved_from = (\<lambda>x. None),
          rvalue = True\<rparr>
        \<lparr>shards = [\<lparr>map_ptr = Some [(0::nat, Some (10::nat))]\<rparr>, \<lparr>map_ptr = Some [(1, None)]\<rparr>],
          size_atomic = 2\<rparr>
     = (1, \<lparr>shards = [\<lparr>map_ptr = Some [(0::nat, Some (10::nat))]\<rparr>, \<lparr>map_ptr = Some []\<rparr>],
                size_atomic = 1\<rparr>)
   \<and> map_sharded_erase_one
        \<lparr>captures = Some (99::nat), call = (\<lambda>x e. snd e = x), moved_from = (\<lambda>x. None),
          rvalue = True\<rparr>
        \<lparr>shards = [\<lparr>map_ptr = Some [(0::nat, Some (10::nat))]\<rparr>, \<lparr>map_ptr = Some [(1, None)]\<rparr>],
          size_atomic = 2\<rparr>
     = (1, \<lparr>shards = [\<lparr>map_ptr = Some [(0::nat, Some (10::nat))]\<rparr>, \<lparr>map_ptr = Some []\<rparr>],
                size_atomic = 1\<rparr>)"
  by code_simp

subsection \<open>\<^verbatim>\<open>copy\<close>\<close>

lemma fold_copy_visitor:
  "fold (copy_visitor op) es ret = ret @ filter op (map snd es)"
  by (induction es arbitrary: ret) (simp_all add: copy_visitor_def)

lemma copy_shards_eq:
  "copy_shards op shs ret = ret @ filter op (map snd (concat (map shard_entries shs)))"
  by (induction shs arbitrary: ret)
    (simp_all add: map_lock_for_each_const_def shard_entries_def fold_copy_visitor
      split: option.splits)

lemma map_sharded_copy_eq: "map_sharded_copy op m = filter op (map snd (live_entries m))"
  by (simp add: map_sharded_copy_def copy_shards_eq live_entries_def)

text \<open>
  C6.  After any sequence of calls on a freshly constructed map, \<^verbatim>\<open>copy\<close> with a predicate
  that is always true returns the value handles of the live entries, one for each live
  entry, in shard order.  The length of this sequence, as a \<^verbatim>\<open>size_t\<close>, is what \<^verbatim>\<open>size()\<close>
  returns; the two are the same number whenever the number of live entries fits
  \<^verbatim>\<open>size_t\<close>.
\<close>

theorem copy_returns_every_live_handle:
  assumes "run H cs (map_sharded_t_init n) = Inr (m, N, M)"
  shows "map_sharded_copy (\<lambda>_. True) m = map snd (live_entries m)
       \<and> word_of_nat (length (map_sharded_copy (\<lambda>_. True) m)) = map_sharded_size m
       \<and> (length (live_entries m) < 2 ^ 64 \<longrightarrow>
            length (map_sharded_copy (\<lambda>_. True) m) = unat (map_sharded_size m))"
proof -
  from run_inv [OF well_formed_init assms] have "counted m"
    by (simp add: well_formed_def)
  then have sz: "map_sharded_size m = word_of_nat (length (live_entries m))"
    by (simp add: counted_def map_sharded_size_def)
  have cp: "map_sharded_copy (\<lambda>_. True) m = map snd (live_entries m)"
    by (simp add: map_sharded_copy_eq)
  have "length (live_entries m) < 2 ^ 64 \<longrightarrow>
          unat (word_of_nat (length (live_entries m)) :: size_t) = length (live_entries m)"
    by (simp add: unat_of_nat)
  with sz cp show ?thesis by simp
qed

theorem copy_returns_every_live_handle_witness:
  "run (\<lambda>k. word_of_nat k)
      [Try_emplace (1::nat) (Some (10::nat)), Try_emplace 2 (Some 20), Try_emplace 3 None,
       Erase 2 :: (nat, nat, unit, unit) operation]
      (map_sharded_t_init 2)
     = Inr (\<lparr>shards = [\<lparr>map_ptr = Some []\<rparr>, \<lparr>map_ptr = Some [(1, Some 10), (3, None)]\<rparr>],
             size_atomic = 2\<rparr>, 3, 1)
   \<and> map_sharded_copy (\<lambda>_. True)
        \<lparr>shards = [\<lparr>map_ptr = Some []\<rparr>, \<lparr>map_ptr = Some [(1::nat, Some (10::nat)), (3, None)]\<rparr>],
          size_atomic = 2\<rparr>
     = [Some 10, None]
   \<and> length (map_sharded_copy (\<lambda>_. True)
        \<lparr>shards = [\<lparr>map_ptr = Some []\<rparr>, \<lparr>map_ptr = Some [(1::nat, Some (10::nat)), (3, None)]\<rparr>],
          size_atomic = 2\<rparr>)
     = unat (map_sharded_size
        \<lparr>shards = [\<lparr>map_ptr = Some []\<rparr>, \<lparr>map_ptr = Some [(1::nat, Some (10::nat)), (3, None)]\<rparr>],
          size_atomic = 2\<rparr>)"
proof -
  let ?m = "\<lparr>shards = [\<lparr>map_ptr = Some []\<rparr>, \<lparr>map_ptr = Some [(1::nat, Some (10::nat)), (3, None)]\<rparr>],
          size_atomic = 2\<rparr>"
  have r: "run (\<lambda>k. word_of_nat k)
      [Try_emplace (1::nat) (Some (10::nat)), Try_emplace 2 (Some 20), Try_emplace 3 None,
       Erase 2 :: (nat, nat, unit, unit) operation]
      (map_sharded_t_init 2) = Inr (?m, 3, 1)"
    by code_simp
  note t = copy_returns_every_live_handle [OF r]
  from t have a: "map_sharded_copy (\<lambda>_. True) ?m = [Some 10, None]"
    by (simp add: live_entries_def shard_entries_def)
  have "length (live_entries ?m) < 2 ^ 64"
    by (simp add: live_entries_def shard_entries_def)
  with t have b: "length (map_sharded_copy (\<lambda>_. True) ?m) = unat (map_sharded_size ?m)"
    by blast
  show ?thesis by (intro conjI r a b)
qed

text \<open>
  C10.  \<^verbatim>\<open>copy()\<close> without a predicate returns the same sequence as \<^verbatim>\<open>copy\<close> with a
  predicate that is always true: the value handles of all live entries.
\<close>

theorem copy_overloads_agree:
  "map_sharded_copy_all m = map_sharded_copy (\<lambda>_. True) m
   \<and> map_sharded_copy_all m = map snd (live_entries m)"
  by (simp add: map_sharded_copy_all_def map_sharded_copy_eq)

subsection \<open>\<^verbatim>\<open>erase_one\<close>\<close>

lemma word_of_nat_nonzero:
  assumes "0 < c" and "c < 2 ^ 31"
  shows "(word_of_nat c :: size_t) \<noteq> 0"
proof -
  from assms(2) have "c < 2 ^ 64" by (rule less_le_trans) simp
  then have "unat (word_of_nat c :: size_t) = c" by (simp add: unat_of_nat)
  with assms(1) show ?thesis by auto
qed

lemma erase_one_first_match:
  assumes same: "\<not> rvalue op \<or> moved_from op (captures op) = captures op"
    and pre: "\<forall>x \<in> set pre. filter (predicate_of op) (shard_entries x) = []"
    and pos: "0 < length (filter (predicate_of op) (shard_entries sh))"
    and small: "length (filter (predicate_of op) (shard_entries sh)) < 2 ^ 31"
    and shs: "shards m = pre @ sh # post"
  shows "map_sharded_erase_one op m =
           (word_of_nat (length (filter (predicate_of op) (shard_entries sh))),
            m\<lparr>shards := pre @ fst (snd (map_lock_erase_if op sh)) # post,
              size_atomic := size_atomic m
                - word_of_nat (length (filter (predicate_of op) (shard_entries sh)))\<rparr>)"
proof -
  from word_of_nat_nonzero [OF pos small]
  have "fst (map_lock_erase_if op sh) \<noteq> 0" by (simp add: fst_map_lock_erase_if)
  from erase_one_shards_first [OF same pre this, of post 0 "size_atomic m"] shs
  show ?thesis
    by (simp add: map_sharded_erase_one_def fst_map_lock_erase_if small_total [OF small])
qed

text \<open>
  C7.  The claim: \<^verbatim>\<open>erase_one\<close> applies \<^verbatim>\<open>erase_if\<close> to the shards in index order, stops at
  the first shard where it removes an entry, and returns that shard's removed count, or 0
  when no shard has a match.  For a closure that the caller passed as an lvalue or that a
  move leaves as it is, the code scans and stops as the claim says, and returns the count
  when it is below \<open>2 ^ 31\<close> (\<open>erase_one_first_match\<close>; \<open>erase_one_shards_no_match\<close> for
  no match).  But the count passes through
  \<^verbatim>\<open>auto total = 0\<close>, an \<^verbatim>\<open>int\<close>, before it is returned as a \<^verbatim>\<open>size_t\<close>: for a shard with
  \<open>2 ^ 31\<close> entries that all match, the shard's \<^verbatim>\<open>erase_if\<close> returns 2147483648 and
  \<^verbatim>\<open>erase_one\<close> returns 18446744071562067968.
\<close>

theorem erase_one_count_passes_through_int:
  "map_sharded_erase_one
     \<lparr>captures = (), call = (\<lambda>x e. True), moved_from = (\<lambda>x. x), rvalue = True\<rparr>
     \<lparr>shards = [\<lparr>map_ptr = Some (map (\<lambda>i. (i, None :: nat option)) [0..<2 ^ 31])\<rparr>],
       size_atomic = 2 ^ 31\<rparr>
   = (18446744071562067968, \<lparr>shards = [\<lparr>map_ptr = Some []\<rparr>], size_atomic = 0\<rparr>)
   \<and> fst (map_lock_erase_if
        \<lparr>captures = (), call = (\<lambda>x e. True), moved_from = (\<lambda>x. x), rvalue = True\<rparr>
        \<lparr>map_ptr = Some (map (\<lambda>i. (i, None :: nat option)) [0..<2 ^ 31])\<rparr>) = 2147483648"
  by (simp add: map_sharded_erase_one_def map_lock_erase_if_def forward_by_value_def
      predicate_of_def std_erase_if_def add_assign_def return_total_def)

subsection \<open>Lazy allocation of a shard's storage\<close>

lemma apply_shard_operation_read:
  "\<not> is_write c \<Longrightarrow> (map_ptr (apply_shard_operation c sh) = None) = (map_ptr sh = None)"
proof (cases c)
  case (Shard_for_each op s)
  obtain b sh' s' where call: "map_lock_for_each op sh s = (b, sh', s')"
    by (cases "map_lock_for_each op sh s") auto
  from shard_keys_for_each [OF call] call Shard_for_each show ?thesis by simp
next
  case (Shard_for_each_void op s)
  obtain b sh' s' where call: "map_lock_for_each_void op sh s = (b, sh', s')"
    by (cases "map_lock_for_each_void op sh s") auto
  from shard_keys_for_each_void [OF call] call Shard_for_each_void show ?thesis by simp
qed (simp_all add: map_lock_erase_eq map_lock_erase_if_eq split: option.splits)

lemma map_lock_try_emplace_allocated: "map_ptr (snd (map_lock_try_emplace key args sh)) \<noteq> None"
  by (simp add: map_lock_try_emplace_def case_prod_beta)

lemma apply_shard_operation_keeps_storage:
  "map_ptr sh \<noteq> None \<Longrightarrow> map_ptr (apply_shard_operation c sh) \<noteq> None"
proof (cases "is_write c")
  case True
  then obtain key args where "c = Shard_try_emplace key args" by (cases c) auto
  then show ?thesis by (simp add: map_lock_try_emplace_allocated)
next
  case False
  assume "map_ptr sh \<noteq> None"
  with apply_shard_operation_read [OF False, of sh] show ?thesis by simp
qed

lemma allocations_allocated: "map_ptr sh \<noteq> None \<Longrightarrow> allocations cs sh = 0"
proof (induction cs arbitrary: sh)
  case Nil
  then show ?case by simp
next
  case (Cons c cs)
  from apply_shard_operation_keeps_storage [OF Cons.prems]
  have "map_ptr (apply_shard_operation c sh) \<noteq> None" .
  from Cons.IH [OF this] Cons.prems show ?case by simp
qed

lemma allocations_at_most_once: "allocations cs sh \<le> 1"
proof (induction cs arbitrary: sh)
  case Nil
  then show ?case by simp
next
  case (Cons c cs)
  show ?case
  proof (cases "map_ptr (apply_shard_operation c sh) = None")
    case True
    with Cons.IH [of "apply_shard_operation c sh"] show ?thesis by simp
  next
    case False
    then have "allocations cs (apply_shard_operation c sh) = 0"
      by (rule allocations_allocated)
    then show ?thesis by simp
  qed
qed

lemma allocations_reads: "\<forall>c \<in> set cs. \<not> is_write c \<Longrightarrow> allocations cs sh = 0"
proof (induction cs arbitrary: sh)
  case Nil
  then show ?case by simp
next
  case (Cons c cs)
  then have "\<not> is_write c" and rest: "\<forall>c \<in> set cs. \<not> is_write c" by simp_all
  from apply_shard_operation_read [OF this(1), of sh]
  have "\<not> (map_ptr sh = None \<and> map_ptr (apply_shard_operation c sh) \<noteq> None)"
    by (cases "map_ptr sh") auto
  moreover from Cons.IH [OF rest] have "allocations cs (apply_shard_operation c sh) = 0" .
  ultimately show ?case by simp
qed

text \<open>
  C9.  On a shard whose storage is not allocated, \<^verbatim>\<open>find\<close> returns a null handle, \<^verbatim>\<open>erase\<close>
  and \<^verbatim>\<open>erase_if\<close> return 0 and every \<^verbatim>\<open>for_each\<close> returns \<^verbatim>\<open>true\<close>, each leaving the shard
  as it is.  On any shard, a member function other than \<^verbatim>\<open>try_emplace\<close> leaves the storage
  allocated exactly if it was; \<^verbatim>\<open>try_emplace\<close> leaves it allocated, and on a shard with
  storage \<^verbatim>\<open>visit_map\<close> returns that storage and changes nothing.  So along any sequence of
  calls on a shard its storage is allocated at most once, and never when the sequence has
  no \<^verbatim>\<open>try_emplace\<close>.
\<close>

theorem only_try_emplace_allocates:
  "(map_ptr sh = None \<longrightarrow>
        map_lock_find key sh = Inr None
      \<and> map_lock_erase key sh = (0, sh)
      \<and> map_lock_erase_if op sh = (0, sh, op)
      \<and> map_lock_for_each v sh s = (True, sh, s)
      \<and> map_lock_for_each_void w sh s = (True, sh, s)
      \<and> map_lock_for_each_const r sh s = (True, s))
   \<and> (\<not> is_write c \<longrightarrow> (map_ptr (apply_shard_operation c sh) = None) = (map_ptr sh = None))
   \<and> map_ptr (snd (map_lock_try_emplace key args sh)) \<noteq> None
   \<and> (map_ptr sh \<noteq> None \<longrightarrow> visit_map sh = (shard_entries sh, sh))
   \<and> allocations cs sh \<le> 1
   \<and> ((\<forall>c \<in> set cs. \<not> is_write c) \<longrightarrow> allocations cs sh = 0)"
proof -
  have "map_ptr sh \<noteq> None \<longrightarrow> visit_map sh = (shard_entries sh, sh)"
    by (auto simp: visit_map_def shard_entries_def)
  moreover have "map_ptr sh = None \<longrightarrow>
        map_lock_find key sh = Inr None
      \<and> map_lock_erase key sh = (0, sh)
      \<and> map_lock_erase_if op sh = (0, sh, op)
      \<and> map_lock_for_each v sh s = (True, sh, s)
      \<and> map_lock_for_each_void w sh s = (True, sh, s)
      \<and> map_lock_for_each_const r sh s = (True, s)"
    by (simp add: map_lock_find_def map_lock_erase_def map_lock_erase_if_def map_lock_for_each_def
        map_lock_for_each_void_def map_lock_for_each_const_def)
  ultimately show ?thesis
    using apply_shard_operation_read [of c sh] map_lock_try_emplace_allocated [of key args sh]
      allocations_at_most_once [of cs sh] allocations_reads [of cs sh]
    by blast
qed

theorem only_try_emplace_allocates_witness:
  "map_ptr (map_lock_t_init :: (nat, nat) map_lock_t) = None
   \<and> map_lock_find (1::nat) (map_lock_t_init :: (nat, nat) map_lock_t) = Inr None
   \<and> map_lock_erase (1::nat) (map_lock_t_init :: (nat, nat) map_lock_t) = (0, map_lock_t_init)
   \<and> map_lock_erase_if \<lparr>captures = (), call = (\<lambda>x e. True), moved_from = (\<lambda>x. x), rvalue = True\<rparr>
        (map_lock_t_init :: (nat, nat) map_lock_t)
     = (0, map_lock_t_init,
        \<lparr>captures = (), call = (\<lambda>x e. True), moved_from = (\<lambda>x. x), rvalue = True\<rparr>)
   \<and> map_lock_for_each (\<lambda>e s. (True, snd e, s @ [fst e])) (map_lock_t_init :: (nat, nat) map_lock_t) []
        = (True, map_lock_t_init, [])
   \<and> allocations [Shard_find 1, Shard_erase 1 :: (nat, nat, nat list, unit) shard_operation] map_lock_t_init = 0
   \<and> allocations [Shard_find 1, Shard_try_emplace 1 (Some 10), Shard_erase 1, Shard_try_emplace 2 None
                   :: (nat, nat, nat list, unit) shard_operation] map_lock_t_init \<le> 1"
proof -
  let ?sh = "map_lock_t_init :: (nat, nat) map_lock_t"
  let ?p = "\<lparr>captures = (), call = (\<lambda>x (e :: (nat, nat) entry). True), moved_from = (\<lambda>x. x),
              rvalue = True\<rparr>"
  let ?v = "\<lambda>(e :: (nat, nat) entry) (s :: nat list). (True, snd e, s @ [fst e])"
  let ?w = "\<lambda>(e :: (nat, nat) entry) (s :: nat list). (snd e, s)"
  let ?r = "\<lambda>(e :: (nat, nat) entry) (s :: nat list). s"
  let ?reads = "[Shard_find 1, Shard_erase 1 :: (nat, nat, nat list, unit) shard_operation]"
  let ?calls = "[Shard_find 1, Shard_try_emplace 1 (Some 10), Shard_erase 1, Shard_try_emplace 2 None
                   :: (nat, nat, nat list, unit) shard_operation]"
  have u: "map_ptr ?sh = None" by (simp add: map_lock_t_init_def)
  have reads: "\<forall>c \<in> set ?reads. \<not> is_write c" by simp
  note t = only_try_emplace_allocates [where sh = ?sh and key = 1 and op = ?p
      and v = ?v and w = ?w and r = ?r and s = "[]" and c = "Shard_find 1" and args = None
      and cs = ?reads]
  from t u have a: "map_lock_find (1::nat) ?sh = Inr None" by blast
  from t u have b: "map_lock_erase (1::nat) ?sh = (0, ?sh)" by blast
  from t u have c: "map_lock_erase_if ?p ?sh = (0, ?sh, ?p)" by blast
  from t u have d: "map_lock_for_each ?v ?sh [] = (True, ?sh, [])" by blast
  from t reads have f: "allocations ?reads ?sh = 0" by blast
  from only_try_emplace_allocates [where sh = ?sh and key = 1 and op = ?p
      and v = ?v and w = ?w and r = ?r and s = "[]" and c = "Shard_find 1" and args = None
      and cs = ?calls]
  have g: "allocations ?calls ?sh \<le> 1" by blast
  show ?thesis by (intro conjI u a b c d f g)
qed


end
